theory Spec2Isabelle
  imports Main "HOL-Library.Multiset" "HOL-Library.AList" "HOL-Library.Sublist"
begin

section \<open>Data model of \<open>ldm_patched/modules/sampler_helpers.py\<close>\<close>

text \<open>
  Python objects are compared by identity, so an object is modelled by its reference.
  The values that the module reads under the keys \<open>control\<close>, \<open>gligen\<close> and
  \<open>additional_models\<close> of a conditioning entry are objects, tuples or lists
  (\<open>isinstance(c[model_type], list)\<close> tells a list from a single value).
\<close>

type_synonym ref = nat

datatype pyval = Obj ref | Tuple "pyval list" | PyList "pyval list"

text \<open>The exceptions that the statements of this module can raise.\<close>

datatype error = AttributeError | TypeError | IndexError | KeyError | RecursionError | ResourceExhausted

subsection \<open>Hooks and hook groups\<close>

text \<open>
  Hooks. A hook carries its reference, its type tag and, for an additional-models hook,
  the list \<open>models\<close>.
\<close>

datatype EnumHookType = Weight | AdditionalModels | TransformerOptions

record hook =
  hook_ref :: nat
  hook_type :: EnumHookType
  models :: "pyval list"

text \<open>
  Modelled from the spec: the class \<open>HookGroup\<close> of \<open>ldm_patched.hooks\<close> is not part of
  the sources at hand. The spec describes a group as a set of hooks kept in insertion
  order, where adding a hook that is already present changes nothing. A group is
  modelled by its list \<open>hooks\<close>.
\<close>

type_synonym HookGroup = "hook list"

definition add :: "HookGroup \<Rightarrow> hook \<Rightarrow> HookGroup" where
  "add g h = (if h \<in> set g then g else g @ [h])"

text \<open>
  Modelled from the spec: \<open>HookGroup.get_type\<close>, the hooks of a group that carry a
  given type tag, in the order of the group.
\<close>

definition get_type :: "HookGroup \<Rightarrow> EnumHookType \<Rightarrow> hook list" where
  "get_type g t = filter (\<lambda>h. hook_type h = t) g"

text \<open>
  Modelled from the spec: \<open>HookGroup.combine_all_hooks\<close> is not part of the sources at
  hand. The spec has the collected groups combined by union; \<open>get_hooks_from_cond\<close> tests
  the result against \<open>None\<close>, which stands for "no group at all".
\<close>

definition combine_all_hooks :: "HookGroup list \<Rightarrow> HookGroup option" where
  "combine_all_hooks hooks_list =
     (if hooks_list = [] then None
      else Some (fold (\<lambda>g acc. fold (\<lambda>h a. add a h) g acc) hooks_list []))"

subsection \<open>Objects, conditioning entries and the primary resource\<close>

text \<open>
  The options dictionary. Only the key \<open>registered_hooks\<close> is read by the resource
  collection; \<open>None\<close> says that the key is absent.
\<close>

record model_options =
  registered_hooks :: "HookGroup option"

text \<open>
  The attributes and methods that this module reads on a resource object are all
  optional: an object either has one or an access raises \<open>AttributeError\<close>.
  \<open>get_models\<close> is the list that the method returns, \<open>cleanup\<close> says whether
  \<open>hasattr(m, 'cleanup')\<close> holds, \<open>extra_hooks\<close> and \<open>previous_controlnet\<close> hold
  \<open>None\<close> or a value.
\<close>

datatype 'a attr = Absent | Present 'a

type_synonym dtype = string
type_synonym shape = "int list"

record obj =
  get_models :: "pyval list attr"
  inference_memory_requirements :: "(dtype \<Rightarrow> int) attr"
  cleanup :: bool
  extra_hooks :: "HookGroup option attr"
  previous_controlnet :: "ref option attr"

text \<open>
  A conditioning entry is a dictionary; a field is \<open>None\<close> when the key is absent.
  \<open>payload\<close> stands for all the other keys, which only \<open>extra_conds_shapes\<close> reads.
  A conditioning set is a dictionary from branch names to lists of entries, kept as the
  list of its items in insertion order (the keys of a dictionary are distinct; the module
  only iterates over it).
\<close>

record 'p cond_entry =
  control :: "pyval option"
  gligen :: "pyval option"
  additional_models :: "pyval option"
  hooks :: "HookGroup option"
  payload :: 'p

type_synonym 'p conds = "(string \<times> 'p cond_entry list) list"

text \<open>
  The primary resource (a \<open>ModelPatcher\<close>) with the capabilities that the module calls.
  \<open>base_model\<close> is \<open>model.model\<close>; its methods \<open>extra_conds_shapes\<close> and
  \<open>memory_required\<close> are parameters. Dictionaries of shapes are lists of items in
  insertion order. Memory figures are integers.
\<close>

record 'p model_patcher =
  patcher_ref :: ref
  base_model :: ref
  model_dtype :: dtype
  get_nested_additional_models :: "pyval list"
  extra_conds_shapes :: "'p cond_entry \<Rightarrow> (string \<times> shape) list"
  memory_required :: "shape \<Rightarrow> (string \<times> shape list) list \<Rightarrow> int"

text \<open>
  The call \<open>load_models_gpu(models, memory_required, minimum_memory_required)\<close> of the
  device manager is recorded as a request.
\<close>

record load_request =
  lr_models :: "pyval list"
  lr_memory_required :: int
  lr_minimum_memory_required :: int

text \<open>
  The environment: the object store; the order in which a Python set of resources is
  iterated (Python iterates a set in the order of the hash table, here any function
  \<open>hash_order\<close> that ranks the elements); and the answer of the device manager to a load
  request (\<open>None\<close> when it returns normally).
\<close>

record world =
  objs :: "ref \<Rightarrow> obj"
  hash_order :: "pyval \<Rightarrow> nat"
  load_models_gpu :: "load_request \<Rightarrow> error option"

subsection \<open>Nested dictionaries\<close>

text \<open>
  The registrations \<open>wrappers\<close> and \<open>callbacks\<close> and the options are nested dictionaries
  that are updated in place, so that it matters which objects are shared. A dictionary and
  a list are objects and carry their address; a leaf (a function) does not change. Two
  occurrences of one address are two references to one object.
\<close>

type_synonym addr = nat

datatype nested = Fn nat | Lst addr "nat list" | Dct addr "(string \<times> nested) list"

text \<open>The addresses of the objects of a structure.\<close>

fun labels :: "nested \<Rightarrow> addr set" where
  "labels (Fn f) = {}"
| "labels (Lst a xs) = {a}"
| "labels (Dct a kvs) = insert a (\<Union>kv\<in>set kvs. labels (snd kv))"

section \<open>The functions of the module\<close>

subsection \<open>\<open>get_models_from_cond\<close>\<close>

text \<open>The key \<open>model_type\<close> is given as the selector of the field.\<close>

definition get_models_from_cond ::
  "'p cond_entry list \<Rightarrow> ('p cond_entry \<Rightarrow> pyval option) \<Rightarrow> pyval list" where
  "get_models_from_cond cond model_type =
     fold (\<lambda>c ms.
             case model_type c of
               None \<Rightarrow> ms
             | Some v \<Rightarrow> (case v of PyList vs \<Rightarrow> ms @ vs | _ \<Rightarrow> ms @ [v]))
          cond []"

subsection \<open>\<open>set(...)\<close> over resources\<close>

text \<open>
  Building a set raises \<open>TypeError\<close> on an unhashable element (a list, or a tuple that
  holds one). Objects hash by identity. The result is the list of the distinct elements
  in iteration order.
\<close>

fun hashable :: "pyval \<Rightarrow> bool" where
  "hashable (Obj r) = True"
| "hashable (Tuple vs) = list_all hashable vs"
| "hashable (PyList vs) = False"

definition py_set :: "world \<Rightarrow> pyval list \<Rightarrow> error + pyval list" where
  "py_set w xs =
     (if list_all hashable xs then Inr (sort_key (hash_order w) (remdups xs))
      else Inl TypeError)"

subsection \<open>\<open>get_hooks_from_cond\<close>\<close>

text \<open>
  The nested function \<open>get_extra_hooks_from_cnet\<close>. Python bounds the depth of recursion
  (\<open>sys.getrecursionlimit()\<close>, 1000 unless changed): a call nested deeper raises
  \<open>RecursionError\<close>. The first argument is the number of nested calls that the
  interpreter still allows. The state is \<open>_list\<close> together with the list of the nodes on
  which the function has been called, in order; the second list is not in the code and
  only records the visits.
\<close>

fun get_extra_hooks_from_cnet ::
  "nat \<Rightarrow> world \<Rightarrow> ref \<Rightarrow> HookGroup list \<times> ref list \<Rightarrow> error + (HookGroup list \<times> ref list)" where
  "get_extra_hooks_from_cnet 0 w cnet st = Inl RecursionError"
| "get_extra_hooks_from_cnet (Suc depth) w cnet st =
     (case extra_hooks (objs w cnet) of
        Absent \<Rightarrow> Inl AttributeError
      | Present eh \<Rightarrow>
          (let st' = ((case eh of None \<Rightarrow> fst st | Some g \<Rightarrow> fst st @ [g]), snd st @ [cnet])
           in case previous_controlnet (objs w cnet) of
                Absent \<Rightarrow> Inl AttributeError
              | Present None \<Rightarrow> Inr st'
              | Present (Some p) \<Rightarrow> get_extra_hooks_from_cnet depth w p st'))"

text \<open>
  The loop \<open>for base_cnet in cnets\<close>. A tuple has no attribute \<open>extra_hooks\<close>.
\<close>

fun base_cnet_loop ::
  "nat \<Rightarrow> world \<Rightarrow> pyval list \<Rightarrow> HookGroup list \<times> ref list \<Rightarrow> error + (HookGroup list \<times> ref list)" where
  "base_cnet_loop depth w [] st = Inr st"
| "base_cnet_loop depth w (base_cnet # rest) st =
     (case base_cnet of
        Obj r \<Rightarrow>
          (case get_extra_hooks_from_cnet depth w r st of
             Inl e \<Rightarrow> Inl e
           | Inr st' \<Rightarrow> base_cnet_loop depth w rest st')
      | _ \<Rightarrow> Inl AttributeError)"

text \<open>
  The first loop of \<open>get_hooks_from_cond\<close>: the hooks of every entry are added to the
  group, the value under \<open>control\<close> is appended as it is (a list is not flattened here).
\<close>

definition cond_hooks_loop ::
  "'p cond_entry list \<Rightarrow> HookGroup \<Rightarrow> HookGroup \<times> pyval list" where
  "cond_hooks_loop cond full_hooks =
     fold (\<lambda>c (fh, cnets).
             ((case hooks c of None \<Rightarrow> fh | Some g \<Rightarrow> fold (\<lambda>h a. add a h) g fh),
              (case control c of None \<Rightarrow> cnets | Some v \<Rightarrow> cnets @ [v])))
          cond (full_hooks, [])"

text \<open>
  \<open>get_hooks_from_cond\<close>; the state is the group \<open>full_hooks\<close>, which the function
  updates in place, with the record of the visits.
\<close>

definition get_hooks_from_cond ::
  "nat \<Rightarrow> world \<Rightarrow> 'p cond_entry list \<Rightarrow> HookGroup \<times> ref list \<Rightarrow> error + (HookGroup \<times> ref list)" where
  "get_hooks_from_cond depth w cond st =
     (case cond_hooks_loop cond (fst st) of
        (full_hooks, cnets) \<Rightarrow>
          (case py_set w cnets of
             Inl e \<Rightarrow> Inl e
           | Inr cnet_set \<Rightarrow>
               (case base_cnet_loop depth w cnet_set ([], snd st) of
                  Inl e \<Rightarrow> Inl e
                | Inr (hooks_list, visited) \<Rightarrow>
                    (case combine_all_hooks hooks_list of
                       None \<Rightarrow> Inr (full_hooks, visited)
                     | Some extra \<Rightarrow> Inr (fold (\<lambda>h a. add a h) extra full_hooks, visited)))))"

subsection \<open>\<open>get_additional_models\<close>\<close>

definition call_get_models :: "world \<Rightarrow> pyval \<Rightarrow> error + pyval list" where
  "call_get_models w m =
     (case m of
        Obj r \<Rightarrow> (case get_models (objs w r) of
                    Absent \<Rightarrow> Inl AttributeError
                  | Present l \<Rightarrow> Inr l)
      | _ \<Rightarrow> Inl AttributeError)"

definition call_inference_memory_requirements :: "world \<Rightarrow> pyval \<Rightarrow> dtype \<Rightarrow> error + int" where
  "call_inference_memory_requirements w m d =
     (case m of
        Obj r \<Rightarrow> (case inference_memory_requirements (objs w r) of
                    Absent \<Rightarrow> Inl AttributeError
                  | Present f \<Rightarrow> Inr (f d))
      | _ \<Rightarrow> Inl AttributeError)"

text \<open>The loop \<open>for m in control_nets\<close> with its two accumulators.\<close>

fun control_loop ::
  "world \<Rightarrow> dtype \<Rightarrow> pyval list \<Rightarrow> pyval list \<times> int \<Rightarrow> error + (pyval list \<times> int)" where
  "control_loop w d [] acc = Inr acc"
| "control_loop w d (m # ms) (control_models, inference_memory) =
     (case call_get_models w m of
        Inl e \<Rightarrow> Inl e
      | Inr l \<Rightarrow>
          (case call_inference_memory_requirements w m d of
             Inl e \<Rightarrow> Inl e
           | Inr x \<Rightarrow> control_loop w d ms (control_models @ l, inference_memory + x)))"

text \<open>
  \<open>x[1]\<close>: the second component of a tuple or list, \<open>IndexError\<close> when there is none,
  \<open>TypeError\<close> on an object.
\<close>

definition item1 :: "pyval \<Rightarrow> error + pyval" where
  "item1 x =
     (case x of
        Obj r \<Rightarrow> Inl TypeError
      | Tuple vs \<Rightarrow> (if 1 < length vs then Inr (vs ! 1) else Inl IndexError)
      | PyList vs \<Rightarrow> (if 1 < length vs then Inr (vs ! 1) else Inl IndexError))"

text \<open>The comprehension \<open>[x[1] for x in gligen]\<close>, stopping at the first exception.\<close>

fun gligen_payloads :: "pyval list \<Rightarrow> error + pyval list" where
  "gligen_payloads [] = Inr []"
| "gligen_payloads (x # xs) =
     (case item1 x of
        Inl e \<Rightarrow> Inl e
      | Inr y \<Rightarrow> (case gligen_payloads xs of Inl e \<Rightarrow> Inl e | Inr ys \<Rightarrow> Inr (y # ys)))"

text \<open>The first loop of \<open>get_additional_models\<close>: the three lists, branch by branch.\<close>

definition collect_cond_models ::
  "'p conds \<Rightarrow> pyval list \<times> pyval list \<times> pyval list" where
  "collect_cond_models conds =
     fold (\<lambda>(k, cs) (cnets, gl, add_models).
             (cnets @ get_models_from_cond cs control,
              gl @ get_models_from_cond cs gligen,
              add_models @ get_models_from_cond cs additional_models))
          conds ([], [], [])"

definition get_additional_models :: "world \<Rightarrow> 'p conds \<Rightarrow> dtype \<Rightarrow> error + (pyval list \<times> int)" where
  "get_additional_models w conds d =
     (case collect_cond_models conds of
        (cnets, gl, add_models) \<Rightarrow>
          (case py_set w cnets of
             Inl e \<Rightarrow> Inl e
           | Inr control_nets \<Rightarrow>
               (case control_loop w d control_nets ([], 0) of
                  Inl e \<Rightarrow> Inl e
                | Inr (control_models, inference_memory) \<Rightarrow>
                    (case gligen_payloads gl of
                       Inl e \<Rightarrow> Inl e
                     | Inr gl2 \<Rightarrow> Inr (control_models @ gl2 @ add_models, inference_memory)))))"

subsection \<open>\<open>get_additional_models_from_model_options\<close>\<close>

text \<open>
  The argument is \<open>None\<close> for Python's \<open>None\<close>. The loop extends the result by
  \<open>hook.models\<close> for every hook that \<open>get_type\<close> returns.
\<close>

definition get_additional_models_from_model_options :: "model_options option \<Rightarrow> pyval list" where
  "get_additional_models_from_model_options mo =
     (case mo of
        None \<Rightarrow> []
      | Some opts \<Rightarrow>
          (case registered_hooks opts of
             None \<Rightarrow> []
           | Some registered \<Rightarrow>
               fold (\<lambda>h acc. acc @ models h) (get_type registered AdditionalModels) []))"

subsection \<open>\<open>cleanup_additional_models\<close>\<close>

text \<open>
  The calls of \<open>m.cleanup()\<close> are recorded, in order, in a list of references that is
  passed along. A tuple or a list has no attribute \<open>cleanup\<close>.
\<close>

definition cleanup_additional_models :: "world \<Rightarrow> pyval list \<Rightarrow> ref list \<Rightarrow> ref list" where
  "cleanup_additional_models w ms tr =
     fold (\<lambda>m t. case m of
                    Obj r \<Rightarrow> (if cleanup (objs w r) then t @ [r] else t)
                  | _ \<Rightarrow> t)
          ms tr"

subsection \<open>\<open>estimate_memory\<close>\<close>

text \<open>
  One step of the innermost loop, for the item \<open>(k, v)\<close>: \<open>cond_shapes[k].append(v)\<close> on
  the \<open>defaultdict(list)\<close>, then the update of \<open>cond_shapes_min\<close>. \<open>math.prod\<close> of a
  shape is the product of its dimensions. An assignment to a dictionary keeps the place
  of a key that is present and appends a new key, as \<open>AList.update\<close> does. Every value
  of \<open>cond_shapes_min\<close> is a list of one shape, which \<open>cur ! 0\<close> reads.
\<close>

definition shape_step ::
  "string \<times> shape \<Rightarrow> (string \<times> shape list) list \<times> (string \<times> shape list) list
     \<Rightarrow> (string \<times> shape list) list \<times> (string \<times> shape list) list" where
  "shape_step kv acc =
     (case (kv, acc) of
        ((k, v), (cond_shapes, cond_shapes_min)) \<Rightarrow>
          (AList.update k ((case map_of cond_shapes k of None \<Rightarrow> [] | Some l \<Rightarrow> l) @ [v]) cond_shapes,
           (case map_of cond_shapes_min k of
              None \<Rightarrow> AList.update k [v] cond_shapes_min
            | Some cur \<Rightarrow>
                if prod_list v > prod_list (cur ! 0) then AList.update k [v] cond_shapes_min
                else cond_shapes_min)))"

definition collect_shapes ::
  "'p model_patcher \<Rightarrow> 'p conds
     \<Rightarrow> (string \<times> shape list) list \<times> (string \<times> shape list) list" where
  "collect_shapes m conds =
     fold (\<lambda>(k, cs) acc.
             fold (\<lambda>cond acc'. fold shape_step (extra_conds_shapes m cond) acc') cs acc)
          conds ([], [])"

text \<open>\<open>noise_shape[0]\<close> raises \<open>IndexError\<close> on an empty shape.\<close>

definition estimate_memory :: "'p model_patcher \<Rightarrow> shape \<Rightarrow> 'p conds \<Rightarrow> error + (int \<times> int)" where
  "estimate_memory m noise_shape conds =
     (case collect_shapes m conds of
        (cond_shapes, cond_shapes_min) \<Rightarrow>
          (case noise_shape of
             [] \<Rightarrow> Inl IndexError
           | n0 # rest \<Rightarrow>
               Inr (memory_required m ((n0 * 2) # rest) cond_shapes,
                    memory_required m (n0 # rest) cond_shapes_min)))"

subsection \<open>\<open>_prepare_sampling\<close>\<close>

text \<open>
  The function returns its result or the exception raised, together with the load
  requests issued to the device manager. \<open>prepare_sampling\<close> runs this function through
  the wrappers registered for \<open>PREPARE_SAMPLING\<close>; the wrappers are outside this module.
\<close>

definition prepare_sampling_core ::
  "world \<Rightarrow> 'p model_patcher \<Rightarrow> shape \<Rightarrow> 'p conds \<Rightarrow> model_options option
     \<Rightarrow> (error + (ref \<times> 'p conds \<times> pyval list)) \<times> load_request list" where
  "prepare_sampling_core w m noise_shape conds mo =
     (case get_additional_models w conds (model_dtype m) of
        Inl e \<Rightarrow> (Inl e, [])
      | Inr (ms0, inference_memory) \<Rightarrow>
          (let ms1 = ms0 @ get_additional_models_from_model_options mo;
               ms2 = ms1 @ get_nested_additional_models m
           in case estimate_memory m noise_shape conds of
                Inl e \<Rightarrow> (Inl e, [])
              | Inr (mem_required, minimum_memory_required) \<Rightarrow>
                  (let req = \<lparr>lr_models = Obj (patcher_ref m) # ms2,
                              lr_memory_required = mem_required + inference_memory,
                              lr_minimum_memory_required = minimum_memory_required + inference_memory\<rparr>
                   in case load_models_gpu w req of
                        Some e \<Rightarrow> (Inl e, [req])
                      | None \<Rightarrow> (Inr (base_model m, conds, ms2), [req]))))"

subsection \<open>\<open>cleanup_models\<close>\<close>

definition control_cleanup_list :: "'p conds \<Rightarrow> pyval list" where
  "control_cleanup_list conds =
     fold (\<lambda>(k, cs) acc. acc @ get_models_from_cond cs control) conds []"

definition cleanup_models ::
  "world \<Rightarrow> 'p conds \<Rightarrow> pyval list \<Rightarrow> ref list \<Rightarrow> (error + unit) \<times> ref list" where
  "cleanup_models w conds ms tr =
     (let tr1 = cleanup_additional_models w ms tr
      in case py_set w (control_cleanup_list conds) of
           Inl e \<Rightarrow> (Inl e, tr1)
         | Inr s \<Rightarrow> (Inr (), cleanup_additional_models w s tr1))"

subsection \<open>\<open>prepare_model_patcher\<close>\<close>

text \<open>
  The first loop of \<open>prepare_model_patcher\<close>:
  \<open>for k in conds: get_hooks_from_cond(conds[k], hooks)\<close>.
\<close>

fun collect_hooks ::
  "nat \<Rightarrow> world \<Rightarrow> 'p conds \<Rightarrow> HookGroup \<times> ref list \<Rightarrow> error + (HookGroup \<times> ref list)" where
  "collect_hooks depth w [] st = Inr st"
| "collect_hooks depth w (kv # rest) st =
     (case get_hooks_from_cond depth w (snd kv) st of
        Inl e \<Rightarrow> Inl e
      | Inr st' \<Rightarrow> collect_hooks depth w rest st')"

text \<open>
  Modelled from the spec: \<open>copy_nested_dicts\<close> of \<open>patcher_extension\<close> is not part of the
  sources at hand. The spec has it make a deep copy: every dictionary and every list of the
  copy is a new object. The first argument is the next free address, which is returned
  updated.
\<close>

fun copy_nested_dicts :: "addr \<Rightarrow> nested \<Rightarrow> nested \<times> addr" where
  "copy_nested_dicts n (Fn f) = (Fn f, n)"
| "copy_nested_dicts n (Lst a xs) = (Lst n xs, Suc n)"
| "copy_nested_dicts n (Dct a kvs) =
     (case fold (\<lambda>kv acc. case copy_nested_dicts (snd acc) (snd kv) of
                              (v', m') \<Rightarrow> (fst acc @ [(fst kv, v')], m'))
                kvs ([], Suc n) of
        (kvs', n') \<Rightarrow> (Dct n kvs', n'))"

text \<open>
  Modelled from the spec: \<open>merge_nested_dicts(dict1, dict2, copy_dict1=False)\<close> is not part
  of the sources at hand. The first dictionary is updated in place. By the spec's rule, an
  entry of the second dictionary whose key is new is added (as a copy); where the key
  exists, two lists are concatenated, two dictionaries are merged in the same way, and
  otherwise the existing value stays. The objects of the first dictionary keep their
  addresses.
\<close>

fun merge_nested_dicts :: "addr \<Rightarrow> nested \<Rightarrow> nested \<Rightarrow> nested \<times> addr" where
  "merge_nested_dicts n (Dct a kvs) (Dct b kvs') =
     (case fold (\<lambda>kv acc.
                   case map_of (fst acc) (fst kv) of
                     None \<Rightarrow> (case copy_nested_dicts (snd acc) (snd kv) of
                                (v', m') \<Rightarrow> (fst acc @ [(fst kv, v')], m'))
                   | Some e \<Rightarrow> (case merge_nested_dicts (snd acc) e (snd kv) of
                                  (e', m') \<Rightarrow> (AList.update (fst kv) e' (fst acc), m')))
                kvs' (kvs, n) of
        (merged, n') \<Rightarrow> (Dct a merged, n'))"
| "merge_nested_dicts n (Lst a xs) (Lst b ys) = (Lst a (xs @ ys), n)"
| "merge_nested_dicts n e v = (e, n)"

text \<open>
  An update in place is seen through every reference: \<open>sync src t\<close> replaces, in \<open>t\<close>,
  every object whose address occurs in \<open>src\<close> by the object that \<open>src\<close> holds at that
  address.
\<close>

fun lookup_node :: "addr \<Rightarrow> nested \<Rightarrow> nested option" where
  "lookup_node a (Fn f) = None"
| "lookup_node a (Lst b xs) = (if a = b then Some (Lst b xs) else None)"
| "lookup_node a (Dct b kvs) =
     (if a = b then Some (Dct b kvs)
      else fold (\<lambda>kv acc. case acc of Some n \<Rightarrow> Some n | None \<Rightarrow> lookup_node a (snd kv)) kvs None)"

fun sync :: "nested \<Rightarrow> nested \<Rightarrow> nested" where
  "sync src (Fn f) = Fn f"
| "sync src (Lst a xs) = (case lookup_node a src of Some n \<Rightarrow> n | None \<Rightarrow> Lst a xs)"
| "sync src (Dct a kvs) =
     (case lookup_node a src of
        Some n \<Rightarrow> n
      | None \<Rightarrow> Dct a (map (\<lambda>kv. (fst kv, sync src (snd kv))) kvs))"

text \<open>
  The state that \<open>prepare_model_patcher\<close> reads and writes: the registrations of the
  primary resource (\<open>model.wrappers\<close>, \<open>model.callbacks\<close>), the entries
  \<open>transformer_options\<close>, \<open>to_load_options\<close> and \<open>registered_hooks\<close> of \<open>model_options\<close>
  (\<open>None\<close> when the key is absent), and the next free address.
\<close>

record patcher_state =
  model_wrappers :: nested
  model_callbacks :: nested
  opt_transformer_options :: "nested option"
  opt_to_load_options :: "nested option"
  opt_registered_hooks :: "HookGroup option"
  next_addr :: addr

text \<open>The object \<open>t\<close> has been updated in place: every reference in the state sees it.\<close>

definition write_back :: "nested \<Rightarrow> patcher_state \<Rightarrow> patcher_state" where
  "write_back t s =
     s\<lparr>model_wrappers := sync t (model_wrappers s),
       model_callbacks := sync t (model_callbacks s),
       opt_transformer_options := map_option (sync t) (opt_transformer_options s),
       opt_to_load_options := map_option (sync t) (opt_to_load_options s)\<rparr>"

text \<open>
  \<open>model_options["transformer_options"][name] = copy_nested_dicts(source)\<close>: the right-hand
  side is evaluated first; a missing key \<open>transformer_options\<close> raises \<open>KeyError\<close>, a value
  that is not a dictionary raises \<open>TypeError\<close>.
\<close>

definition copy_registration ::
  "string \<Rightarrow> (patcher_state \<Rightarrow> nested) \<Rightarrow> patcher_state \<Rightarrow> error + patcher_state" where
  "copy_registration name source s =
     (case copy_nested_dicts (next_addr s) (source s) of
        (c, n') \<Rightarrow>
          (case opt_transformer_options s of
             None \<Rightarrow> Inl KeyError
           | Some t \<Rightarrow>
               (case t of
                  Dct a kvs \<Rightarrow>
                    Inr (write_back (Dct a (AList.update name c kvs)) (s\<lparr>next_addr := n'\<rparr>))
                | _ \<Rightarrow> Inl TypeError)))"

text \<open>
  Modelled from the spec: \<open>hook.add_hook_patches\<close> and
  \<open>model.register_all_hook_patches\<close> are not part of the sources at hand. By the spec, the
  configuration is built by merging the registrations of the primary resource with those
  that the hooks contribute, and every hook applied enters the registry. A hook of type
  \<open>TransformerOptions\<close> contributes the nested dictionary \<open>transformers_dict h\<close>, which
  is merged in place into the working area \<open>transformer_options\<close>; the other hooks only
  enter the registry.
\<close>

definition add_hook_patches ::
  "(hook \<Rightarrow> nested) \<Rightarrow> hook \<Rightarrow> patcher_state \<times> HookGroup \<Rightarrow> patcher_state \<times> HookGroup" where
  "add_hook_patches transformers_dict h sr =
     (case sr of
        (s, registered) \<Rightarrow>
          (if hook_type h = TransformerOptions then
             (case opt_transformer_options s of
                None \<Rightarrow> (s, add registered h)
              | Some t \<Rightarrow>
                  (case merge_nested_dicts (next_addr s) t (transformers_dict h) of
                     (t', n') \<Rightarrow> (write_back t' (s\<lparr>next_addr := n'\<rparr>), add registered h)))
           else (s, add registered h)))"

text \<open>
  The three dispatch steps of \<open>prepare_model_patcher\<close>, starting from an empty registry:
  the hooks of type \<open>TransformerOptions\<close>, those of type \<open>AdditionalModels\<close>, then the
  weight hooks through the primary resource.
\<close>

definition register_hooks ::
  "(hook \<Rightarrow> nested) \<Rightarrow> HookGroup \<Rightarrow> patcher_state \<Rightarrow> patcher_state \<times> HookGroup" where
  "register_hooks transformers_dict hks s =
     fold (add_hook_patches transformers_dict)
          (get_type hks TransformerOptions @ get_type hks AdditionalModels @ get_type hks Weight)
          (s, [])"

text \<open>
  One round of the last loop:
  \<open>merge_nested_dicts(to_load_options.setdefault(wc_name, {}),
  model_options["transformer_options"][wc_name], copy_dict1=False)\<close>. The arguments are
  evaluated from left to right.
\<close>

definition merge_into_to_load :: "string \<Rightarrow> patcher_state \<Rightarrow> error + patcher_state" where
  "merge_into_to_load wc_name s =
     (case opt_to_load_options s of
        None \<Rightarrow> Inl KeyError
      | Some tlo \<Rightarrow>
          (case tlo of
             Dct a kvs \<Rightarrow>
               (case (case map_of kvs wc_name of
                        Some e \<Rightarrow> (e, s)
                      | None \<Rightarrow>
                          (Dct (next_addr s) [],
                           write_back (Dct a (kvs @ [(wc_name, Dct (next_addr s) [])]))
                             (s\<lparr>next_addr := Suc (next_addr s)\<rparr>))) of
                  (target, s1) \<Rightarrow>
                    (case opt_transformer_options s1 of
                       None \<Rightarrow> Inl KeyError
                     | Some t \<Rightarrow>
                         (case t of
                            Dct b tkvs \<Rightarrow>
                              (case map_of tkvs wc_name of
                                 None \<Rightarrow> Inl KeyError
                               | Some incoming \<Rightarrow>
                                   (case merge_nested_dicts (next_addr s1) target incoming of
                                      (target', n') \<Rightarrow>
                                        Inr (write_back target' (s1\<lparr>next_addr := n'\<rparr>))))
                          | _ \<Rightarrow> Inl TypeError)))
           | _ \<Rightarrow> Inl AttributeError))"

text \<open>
  \<open>to_load_options = model_options.setdefault("to_load_options", {})\<close>, the loop over
  \<open>["wrappers", "callbacks"]\<close>, and the return of \<open>to_load_options\<close>.
\<close>

definition merge_to_load_options :: "patcher_state \<Rightarrow> (error + nested) \<times> patcher_state" where
  "merge_to_load_options s =
     (let s5 = (case opt_to_load_options s of
                  None \<Rightarrow> s\<lparr>opt_to_load_options := Some (Dct (next_addr s) []),
                              next_addr := Suc (next_addr s)\<rparr>
                | Some tlo \<Rightarrow> s)
      in case merge_into_to_load ''wrappers'' s5 of
           Inl e \<Rightarrow> (Inl e, s5)
         | Inr s6 \<Rightarrow>
             (case merge_into_to_load ''callbacks'' s6 of
                Inl e \<Rightarrow> (Inl e, s6)
              | Inr s7 \<Rightarrow>
                  (case opt_to_load_options s7 of
                     None \<Rightarrow> (Inl KeyError, s7)
                   | Some tlo \<Rightarrow> (Inr tlo, s7))))"

text \<open>
  \<open>prepare_model_patcher\<close>: the result or the exception raised, with the state after the
  call.
\<close>

definition prepare_model_patcher ::
  "nat \<Rightarrow> world \<Rightarrow> (hook \<Rightarrow> nested) \<Rightarrow> 'p conds \<Rightarrow> patcher_state
     \<Rightarrow> (error + nested) \<times> patcher_state" where
  "prepare_model_patcher depth w transformers_dict conds s =
     (case collect_hooks depth w conds ([], []) of
        Inl e \<Rightarrow> (Inl e, s)
      | Inr (hks, visited) \<Rightarrow>
          (case copy_registration ''wrappers'' model_wrappers s of
             Inl e \<Rightarrow> (Inl e, s)
           | Inr s1 \<Rightarrow>
               (case copy_registration ''callbacks'' model_callbacks s1 of
                  Inl e \<Rightarrow> (Inl e, s1)
                | Inr s2 \<Rightarrow>
                    (case register_hooks transformers_dict hks s2 of
                       (s3, registered) \<Rightarrow>
                         merge_to_load_options
                           (if length registered > 0
                            then s3\<lparr>opt_registered_hooks := Some registered\<rparr>
                            else s3)))))"

section \<open>Notions used to state the properties\<close>

subsection \<open>Resources referenced by a conditioning set\<close>

text \<open>
  The values that an entry holds under a key (a list counts for its elements), and the
  values referenced under a key across all entries of all branches, in order.
\<close>

definition entry_values :: "('p cond_entry \<Rightarrow> pyval option) \<Rightarrow> 'p cond_entry \<Rightarrow> pyval list" where
  "entry_values f c =
     (case f c of None \<Rightarrow> [] | Some v \<Rightarrow> (case v of PyList vs \<Rightarrow> vs | _ \<Rightarrow> [v]))"

definition referenced :: "('p cond_entry \<Rightarrow> pyval option) \<Rightarrow> 'p conds \<Rightarrow> pyval list" where
  "referenced f conds = concat (map (\<lambda>kv. concat (map (entry_values f) (snd kv))) conds)"

text \<open>
  What \<open>m.get_models()\<close> and \<open>m.inference_memory_requirements(dtype)\<close> return on a
  resource that has the capability (the empty list and 0 stand in where the call raises).
\<close>

definition models_of :: "world \<Rightarrow> pyval \<Rightarrow> pyval list" where
  "models_of w m = (case call_get_models w m of Inl e \<Rightarrow> [] | Inr l \<Rightarrow> l)"

definition memory_of :: "world \<Rightarrow> dtype \<Rightarrow> pyval \<Rightarrow> int" where
  "memory_of w d m = (case call_inference_memory_requirements w m d of Inl e \<Rightarrow> 0 | Inr x \<Rightarrow> x)"

subsection \<open>Shapes\<close>

text \<open>
  The items \<open>(bucket, shape)\<close> that \<open>extra_conds_shapes\<close> yields, in the order in which
  the loops of \<open>estimate_memory\<close> meet them; the shapes seen for one bucket; the first
  shape of largest volume in a list (the volume is the product of the dimensions); and the
  distinct elements of a list in the order of their first occurrence.
\<close>

definition shape_items :: "'p model_patcher \<Rightarrow> 'p conds \<Rightarrow> (string \<times> shape) list" where
  "shape_items m conds = concat (map (extra_conds_shapes m) (concat (map snd conds)))"

definition bucket_shapes :: "string \<Rightarrow> (string \<times> shape) list \<Rightarrow> shape list" where
  "bucket_shapes k items = map snd (filter (\<lambda>kv. fst kv = k) items)"

definition largest_first :: "shape list \<Rightarrow> shape" where
  "largest_first vs = hd (filter (\<lambda>v. \<forall>u\<in>set vs. prod_list u \<le> prod_list v) vs)"

fun first_seen :: "'a list \<Rightarrow> 'a list" where
  "first_seen [] = []"
| "first_seen (x # xs) = x # first_seen (removeAll x xs)"

text \<open>The update of one entry of \<open>cond_shapes_min\<close>, by itself.\<close>

definition min_upd :: "shape list option \<Rightarrow> shape \<Rightarrow> shape list option" where
  "min_upd cur v = (case cur of None \<Rightarrow> Some [v]
      | Some c \<Rightarrow> if prod_list v > prod_list (c ! 0) then Some [v] else Some c)"

text \<open>
  The two dictionaries as the spec describes them: per bucket, in the order in which the
  buckets are first seen, all the shapes seen, and the single first shape of largest
  volume.
\<close>

definition required_shapes :: "'p model_patcher \<Rightarrow> 'p conds \<Rightarrow> (string \<times> shape list) list" where
  "required_shapes m conds =
     map (\<lambda>k. (k, bucket_shapes k (shape_items m conds))) (first_seen (map fst (shape_items m conds)))"

definition minimum_shapes :: "'p model_patcher \<Rightarrow> 'p conds \<Rightarrow> (string \<times> shape list) list" where
  "minimum_shapes m conds =
     map (\<lambda>k. (k, [largest_first (bucket_shapes k (shape_items m conds))]))
         (first_seen (map fst (shape_items m conds)))"

text \<open>
  A dictionary of shapes is below another when they have the same buckets in the same
  order and each bucket of the first holds a subsequence of the shapes of the second.

  The function \<open>model.model.memory_required\<close> belongs to the primary resource and is a
  parameter here. \<open>monotone_memory_at m rest b\<close> says of it what a cost does: at the
  trailing dimensions \<open>rest\<close> of the output shape, and for dictionaries of shapes below
  \<open>b\<close>, it does not decrease when the leading dimension (not negative) grows and when
  buckets receive more shapes, up to \<open>b\<close>. Nothing is asked at other trailing dimensions
  or other dictionaries, so that a function proportional to the volume of the shapes
  qualifies wherever that volume is not negative.
\<close>

definition shapes_le :: "(string \<times> shape list) list \<Rightarrow> (string \<times> shape list) list \<Rightarrow> bool" where
  "shapes_le a b = list_all2 (\<lambda>x y. fst x = fst y \<and> subseq (snd x) (snd y)) a b"

definition monotone_memory_at :: "'p model_patcher \<Rightarrow> shape \<Rightarrow> (string \<times> shape list) list \<Rightarrow> bool" where
  "monotone_memory_at m rest b =
     (\<forall>n n' a. 0 \<le> n \<and> n \<le> n' \<and> shapes_le a b
        \<longrightarrow> memory_required m (n # rest) a \<le> memory_required m (n' # rest) b)"

subsection \<open>Control chains and visits\<close>

text \<open>
  Control chains. \<open>follow w n r\<close> is the node reached from \<open>r\<close> after \<open>n\<close> links
  \<open>previous_controlnet\<close>, if there is one. \<open>is_chain w ns\<close> says that \<open>ns\<close> lists the
  nodes of a chain from its head to the node with no previous link, every node having
  the attribute \<open>extra_hooks\<close>; such a chain has no cycle. \<open>node_hooks\<close> is the group
  of extra hooks of a node, if it has one.
\<close>

fun follow :: "world \<Rightarrow> nat \<Rightarrow> ref \<Rightarrow> ref option" where
  "follow w 0 r = Some r"
| "follow w (Suc n) r =
     (case previous_controlnet (objs w r) of
        Present (Some p) \<Rightarrow> follow w n p
      | _ \<Rightarrow> None)"

fun is_chain :: "world \<Rightarrow> ref list \<Rightarrow> bool" where
  "is_chain w [] = False"
| "is_chain w [r] = (previous_controlnet (objs w r) = Present None \<and> extra_hooks (objs w r) \<noteq> Absent)"
| "is_chain w (r # p # rest) =
     (previous_controlnet (objs w r) = Present (Some p) \<and> extra_hooks (objs w r) \<noteq> Absent
      \<and> is_chain w (p # rest))"

definition node_hooks :: "world \<Rightarrow> ref \<Rightarrow> HookGroup list" where
  "node_hooks w r = (case extra_hooks (objs w r) of Present (Some g) \<Rightarrow> [g] | _ \<Rightarrow> [])"

text \<open>
  The control values and the hooks of the entries of one branch, and the visits that one
  call of \<open>get_hooks_from_cond\<close> makes: for every distinct control value of the branch,
  the chain that starts at it.
\<close>

definition branch_controls :: "'p cond_entry list \<Rightarrow> pyval list" where
  "branch_controls cond = concat (map (\<lambda>c. case control c of None \<Rightarrow> [] | Some v \<Rightarrow> [v]) cond)"

definition branch_hooks :: "'p cond_entry list \<Rightarrow> hook list" where
  "branch_hooks cond = concat (map (\<lambda>c. case hooks c of None \<Rightarrow> [] | Some g \<Rightarrow> g) cond)"

definition visits_of_branch :: "world \<Rightarrow> 'p cond_entry list \<Rightarrow> ref list list \<Rightarrow> bool" where
  "visits_of_branch w cond chs =
     (\<exists>roots. distinct roots \<and> set roots = set (branch_controls cond)
        \<and> list_all2 (\<lambda>c ns. c = Obj (hd ns) \<and> is_chain w ns) roots chs)"

subsection \<open>Separation of the registrations from the options\<close>

text \<open>The addresses in the values of a list of items.\<close>

definition items_labels :: "(string \<times> nested) list \<Rightarrow> addr set" where
  "items_labels kvs = (\<Union>kv\<in>set kvs. labels (snd kv))"

text \<open>
  The state is separate when no object of the registrations of the primary resource is
  referenced from the options, and every address of the registrations is below the next
  free address.
\<close>

definition opt_labels :: "nested option \<Rightarrow> addr set" where
  "opt_labels t = (case t of None \<Rightarrow> {} | Some x \<Rightarrow> labels x)"

definition model_labels :: "patcher_state \<Rightarrow> addr set" where
  "model_labels s = labels (model_wrappers s) \<union> labels (model_callbacks s)"

definition options_labels :: "patcher_state \<Rightarrow> addr set" where
  "options_labels s = opt_labels (opt_transformer_options s) \<union> opt_labels (opt_to_load_options s)"

definition separate :: "patcher_state \<Rightarrow> bool" where
  "separate s = (model_labels s \<inter> options_labels s = {} \<and> (\<forall>a\<in>model_labels s. a < next_addr s))"

text \<open>
  The registrations of the primary resource are those of \<open>s\<close>, and the state is separate.
\<close>

definition unchanged :: "patcher_state \<Rightarrow> patcher_state \<Rightarrow> bool" where
  "unchanged s s' = (model_wrappers s' = model_wrappers s \<and> model_callbacks s' = model_callbacks s
                     \<and> separate s')"

section \<open>Concrete scenes\<close>

text \<open>
  Object 1 is a control resource whose chain continues with object 2; objects 11 and 12
  are the models they wrap, 9 is an attached model, 20 a gated model, 0 the primary
  resource with base model 50 and the nested model 60.
\<close>

definition ex_objs :: "ref \<Rightarrow> obj" where
  "ex_objs r =
     (if r = 1 then
        \<lparr>get_models = Present [Obj 12, Obj 11],
         inference_memory_requirements = Present (\<lambda>d. 100),
         cleanup = True,
         extra_hooks = Present (Some [\<lparr>hook_ref = 31, hook_type = TransformerOptions, models = []\<rparr>]),
         previous_controlnet = Present (Some 2)\<rparr>
      else if r = 2 then
        \<lparr>get_models = Present [Obj 12],
         inference_memory_requirements = Present (\<lambda>d. 50),
         cleanup = True,
         extra_hooks = Present (Some [\<lparr>hook_ref = 32, hook_type = Weight, models = []\<rparr>]),
         previous_controlnet = Present None\<rparr>
      else
        \<lparr>get_models = Absent, inference_memory_requirements = Absent,
         cleanup = (r = 9 \<or> r = 11 \<or> r = 12),
         extra_hooks = Absent, previous_controlnet = Absent\<rparr>)"

definition ex_world :: world where
  "ex_world = \<lparr>objs = ex_objs, hash_order = (\<lambda>v. 0), load_models_gpu = (\<lambda>req. None)\<rparr>"

definition ex_entry :: "pyval \<Rightarrow> unit cond_entry" where
  "ex_entry c = \<lparr>control = Some c, gligen = Some (Tuple [Obj 40, Obj 20, Obj 41]),
                 additional_models = Some (PyList [Obj 9]), hooks = None, payload = ()\<rparr>"

definition ex_conds :: "unit conds" where
  "ex_conds = [(''positive'', [ex_entry (Obj 1)]), (''negative'', [ex_entry (Obj 1)])]"

definition ex_model :: "unit model_patcher" where
  "ex_model = \<lparr>patcher_ref = 0, base_model = 50, model_dtype = ''float16'',
                get_nested_additional_models = [Obj 60],
                extra_conds_shapes = (\<lambda>c. []),
                memory_required = (\<lambda>s cs. prod_list s)\<rparr>"

text \<open>
  Scenes for the estimate: a resource whose shape requirements are the payload of the
  entry and whose memory-requirement function counts the shapes; the same resource with
  a function proportional to the area of the shapes, where the area of a shape is its
  leading dimension times the dimensions after the second, summed over the output shape
  and all the shapes of the dictionary; and a resource whose function decreases with the
  size of the output.
\<close>

definition ex_shape_model :: "((string \<times> shape) list) model_patcher" where
  "ex_shape_model = \<lparr>patcher_ref = 0, base_model = 50, model_dtype = ''float16'',
                get_nested_additional_models = [],
                extra_conds_shapes = payload,
                memory_required = (\<lambda>s cs. 10 * (case s of [] \<Rightarrow> 0 | n # r \<Rightarrow> n)
                                       + int (length (concat (map snd cs))))\<rparr>"

definition ex_shape_entry :: "(string \<times> shape) list \<Rightarrow> ((string \<times> shape) list) cond_entry" where
  "ex_shape_entry p = \<lparr>control = None, gligen = None, additional_models = None, hooks = None, payload = p\<rparr>"

definition ex_shape_conds :: "((string \<times> shape) list) conds" where
  "ex_shape_conds =
     [(''positive'', [ex_shape_entry [(''context'', [2, 4, 8]), (''ref'', [1, 16])]]),
      (''negative'', [ex_shape_entry [(''context'', [2, 4, 16])], ex_shape_entry [(''context'', [2, 16, 4])]])]"

definition area :: "shape \<Rightarrow> int" where
  "area s = (case s of [] \<Rightarrow> 0 | n # r \<Rightarrow> n * prod_list (tl r))"

definition ex_area_model :: "((string \<times> shape) list) model_patcher" where
  "ex_area_model = ex_shape_model\<lparr>memory_required :=
      (\<lambda>s cs. area s + sum_list (map area (concat (map snd cs))))\<rparr>"

definition ex_decreasing_model :: "unit model_patcher" where
  "ex_decreasing_model = ex_model\<lparr>memory_required := (\<lambda>s cs. 1000 - prod_list s)\<rparr>"

text \<open>
  Scenes for the hooks: the two branches of the spec's scenario, where the negative branch
  refers to the tail of the chain of the positive one; a chain of 1001 nodes
  \<open>0, 1, \<dots>, 1000\<close>; and two nodes that are each other's previous node.
\<close>

definition ex_hook :: "nat \<Rightarrow> hook" where
  "ex_hook n = \<lparr>hook_ref = n, hook_type = TransformerOptions, models = []\<rparr>"

definition ex_hook_entry :: "pyval \<Rightarrow> HookGroup \<Rightarrow> unit cond_entry" where
  "ex_hook_entry c hs = \<lparr>control = Some c, gligen = None, additional_models = None,
                         hooks = Some hs, payload = ()\<rparr>"

definition ex_hook_conds :: "unit conds" where
  "ex_hook_conds = [(''positive'', [ex_hook_entry (Obj 1) [ex_hook 21]]),
                    (''negative'', [ex_hook_entry (Obj 2) [ex_hook 22]])]"

definition ex_long_chain :: world where
  "ex_long_chain =
     \<lparr>objs = (\<lambda>r. \<lparr>get_models = Present [], inference_memory_requirements = Present (\<lambda>d. 0),
                    cleanup = True, extra_hooks = Present None,
                    previous_controlnet = Present (if r < 1000 then Some (Suc r) else None)\<rparr>),
      hash_order = (\<lambda>v. 0), load_models_gpu = (\<lambda>req. None)\<rparr>"

definition ex_cycle :: world where
  "ex_cycle =
     \<lparr>objs = (\<lambda>r. \<lparr>get_models = Present [], inference_memory_requirements = Present (\<lambda>d. 0),
                    cleanup = True, extra_hooks = Present None,
                    previous_controlnet = Present (Some (if r = 1 then 2 else 1))\<rparr>),
      hash_order = (\<lambda>v. 0), load_models_gpu = (\<lambda>req. None)\<rparr>"

text \<open>
  A scene for \<open>prepare_model_patcher\<close>: the primary resource has one wrapper, every
  hook of type \<open>TransformerOptions\<close> contributes one more wrapper under the same keys; and
  the same scene with options that refer to the registration object of the primary
  resource.
\<close>

definition ex_state :: patcher_state where
  "ex_state = \<lparr>model_wrappers = Dct 1 [(''sampler'', Dct 2 [(''k'', Lst 3 [70])])],
               model_callbacks = Dct 4 [],
               opt_transformer_options = Some (Dct 5 []),
               opt_to_load_options = None,
               opt_registered_hooks = None,
               next_addr = 10\<rparr>"

definition ex_transformers_dict :: "hook \<Rightarrow> nested" where
  "ex_transformers_dict h =
     Dct 6 [(''wrappers'', Dct 7 [(''sampler'', Dct 8 [(''k'', Lst 9 [hook_ref h])])])]"

definition ex_aliased_state :: patcher_state where
  "ex_aliased_state =
     ex_state\<lparr>opt_to_load_options :=
                 Some (Dct 6 [(''wrappers'', Dct 1 [(''sampler'', Dct 2 [(''k'', Lst 3 [70])])])])\<rparr>"

section \<open>Theorems\<close>

subsection \<open>The models of registered hooks\<close>

lemma fold_extend: "fold (\<lambda>h acc. acc @ f h) hs a = a @ concat (map f hs)"
  by (induction hs arbitrary: a) simp_all

text \<open>
  Claim C10. \<open>get_additional_models_from_model_options\<close> returns the empty list when
  the options are \<open>None\<close> or have no key \<open>registered_hooks\<close>; otherwise it returns the
  concatenation, in the order of the group, of the \<open>models\<close> lists of the registered
  hooks of type \<open>AdditionalModels\<close>, and hooks of any other type contribute nothing.
\<close>

theorem additional_models_from_options:
  "get_additional_models_from_model_options None = []
   \<and> get_additional_models_from_model_options (Some (opts\<lparr>registered_hooks := None\<rparr>)) = []
   \<and> get_additional_models_from_model_options (Some (opts\<lparr>registered_hooks := Some g\<rparr>))
       = concat (map models (filter (\<lambda>h. hook_type h = AdditionalModels) g))
   \<and> get_additional_models_from_model_options
         (Some (opts\<lparr>registered_hooks := Some (filter (\<lambda>h. hook_type h = AdditionalModels) g)\<rparr>))
       = get_additional_models_from_model_options (Some (opts\<lparr>registered_hooks := Some g\<rparr>))"
  by (simp add: get_additional_models_from_model_options_def get_type_def fold_extend)

theorem additional_models_from_options_witness:
  "get_additional_models_from_model_options
     (Some \<lparr>registered_hooks = Some
        [\<lparr>hook_ref = 1, hook_type = AdditionalModels, models = [Obj 7, Obj 8]\<rparr>,
         \<lparr>hook_ref = 2, hook_type = Weight, models = [Obj 9]\<rparr>,
         \<lparr>hook_ref = 3, hook_type = AdditionalModels, models = [Obj 7]\<rparr>]\<rparr>)
   = [Obj 7, Obj 8, Obj 7]"
  using additional_models_from_options
    [of "\<lparr>registered_hooks = None\<rparr>"
        "[\<lparr>hook_ref = 1, hook_type = AdditionalModels, models = [Obj 7, Obj 8]\<rparr>,
          \<lparr>hook_ref = 2, hook_type = Weight, models = [Obj 9]\<rparr>,
          \<lparr>hook_ref = 3, hook_type = AdditionalModels, models = [Obj 7]\<rparr>]"]
  by simp

subsection \<open>Collecting the resources\<close>

lemmas ex_defs =
  ex_conds_def ex_entry_def ex_model_def ex_world_def ex_objs_def

lemmas prepare_defs =
  prepare_sampling_core_def get_additional_models_def collect_cond_models_def
  get_models_from_cond_def py_set_def call_get_models_def
  call_inference_memory_requirements_def item1_def
  get_additional_models_from_model_options_def estimate_memory_def collect_shapes_def
  get_type_def Let_def

lemma get_models_from_cond_gen:
  "fold (\<lambda>c ms. case f c of None \<Rightarrow> ms
                 | Some v \<Rightarrow> (case v of PyList vs \<Rightarrow> ms @ vs | _ \<Rightarrow> ms @ [v])) cs a
     = a @ concat (map (entry_values f) cs)"
  by (induction cs arbitrary: a) (auto simp: entry_values_def split: option.splits pyval.splits)

lemma get_models_from_cond_eq: "get_models_from_cond cs f = concat (map (entry_values f) cs)"
  by (simp add: get_models_from_cond_def get_models_from_cond_gen)

lemma collect_cond_models_gen:
  "fold (\<lambda>(k, cs) (cnets, gl, add_models).
             (cnets @ get_models_from_cond cs control,
              gl @ get_models_from_cond cs gligen,
              add_models @ get_models_from_cond cs additional_models)) conds (a, b, c)
   = (a @ referenced control conds, b @ referenced gligen conds,
      c @ referenced additional_models conds)"
  by (induction conds arbitrary: a b c) (auto simp: referenced_def get_models_from_cond_eq)

lemma collect_cond_models_eq:
  "collect_cond_models conds =
     (referenced control conds, referenced gligen conds, referenced additional_models conds)"
  by (simp add: collect_cond_models_def collect_cond_models_gen)

lemma control_cleanup_list_gen:
  "fold (\<lambda>(k, cs) acc. acc @ get_models_from_cond cs control) conds a
     = a @ referenced control conds"
  by (induction conds arbitrary: a) (auto simp: referenced_def get_models_from_cond_eq)

lemma control_cleanup_list_eq: "control_cleanup_list conds = referenced control conds"
  by (simp add: control_cleanup_list_def control_cleanup_list_gen)

lemma py_set_Inr: "py_set w xs = Inr s \<Longrightarrow> distinct s \<and> set s = set xs"
  by (auto simp: py_set_def split: if_splits)

lemma control_loop_Inr:
  "control_loop w d ms (cm, im) = Inr (cm', im') \<Longrightarrow>
     cm' = cm @ concat (map (models_of w) ms)
     \<and> im' = im + sum_list (map (memory_of w d) ms)
     \<and> (\<forall>x\<in>set ms. call_get_models w x = Inr (models_of w x)
           \<and> call_inference_memory_requirements w x d = Inr (memory_of w d x))"
proof (induction ms arbitrary: cm im)
  case Nil
  then show ?case by simp
next
  case (Cons a ms)
  from Cons.prems obtain l x where
    l: "call_get_models w a = Inr l" and
    x: "call_inference_memory_requirements w a d = Inr x" and
    r: "control_loop w d ms (cm @ l, im + x) = Inr (cm', im')"
    by (auto split: sum.splits)
  from Cons.IH [OF r] l x show ?case
    by (simp add: models_of_def memory_of_def)
qed

lemma control_loop_fails:
  "x \<in> set ms \<Longrightarrow> call_get_models w x = Inl e \<Longrightarrow> \<exists>e'. control_loop w d ms acc = Inl e'"
proof (induction ms arbitrary: acc)
  case Nil
  then show ?case by simp
next
  case (Cons a ms)
  obtain cm im where acc: "acc = (cm, im)" by (cases acc)
  show ?case
  proof (cases "x = a")
    case True
    with Cons.prems acc show ?thesis by simp
  next
    case False
    with Cons.prems have "x \<in> set ms" by simp
    from Cons.IH [OF this Cons.prems(2)] acc show ?thesis
      by (auto split: sum.splits)
  qed
qed

lemma gligen_payloads_Inr:
  "gligen_payloads gl = Inr gl2 \<Longrightarrow> list_all2 (\<lambda>x y. item1 x = Inr y) gl gl2"
  by (induction gl arbitrary: gl2) (auto split: sum.splits)

lemma get_additional_models_Inr:
  assumes "get_additional_models w conds d = Inr (ms, im)"
  shows "\<exists>roots gl2. py_set w (referenced control conds) = Inr roots
           \<and> gligen_payloads (referenced gligen conds) = Inr gl2
           \<and> ms = concat (map (models_of w) roots) @ gl2 @ referenced additional_models conds
           \<and> im = sum_list (map (memory_of w d) roots)
           \<and> (\<forall>x\<in>set roots. call_get_models w x = Inr (models_of w x)
                 \<and> call_inference_memory_requirements w x d = Inr (memory_of w d x))"
  using assms
  by (auto simp: get_additional_models_def collect_cond_models_eq
           split: sum.splits prod.splits dest!: control_loop_Inr)

lemma get_additional_models_no_capability:
  assumes "Obj r \<in> set (referenced control conds)" and "get_models (objs w r) = Absent"
  shows "\<exists>e. get_additional_models w conds d = Inl e"
proof (cases "py_set w (referenced control conds)")
  case (Inl e)
  then show ?thesis by (simp add: get_additional_models_def collect_cond_models_eq)
next
  case (Inr roots)
  with assms(1) have "Obj r \<in> set roots" by (simp add: py_set_Inr)
  moreover from assms(2) have "call_get_models w (Obj r) = Inl AttributeError"
    by (simp add: call_get_models_def)
  ultimately obtain e where "control_loop w d roots ([], 0) = Inl e"
    using control_loop_fails by blast
  with Inr show ?thesis by (simp add: get_additional_models_def collect_cond_models_eq)
qed

lemma prepare_sampling_core_Inr:
  assumes "fst (prepare_sampling_core w m noise_shape conds mo) = Inr (rm, cs, ms)"
  shows "\<exists>ms0 hint. get_additional_models w conds (model_dtype m) = Inr (ms0, hint)
           \<and> ms = ms0 @ get_additional_models_from_model_options mo
                   @ get_nested_additional_models m"
  using assms
  by (auto simp: prepare_sampling_core_def Let_def split: sum.splits prod.splits option.splits)

text \<open>
  Claim C1, as amended. When preparation returns, the list of auxiliary resources is the
  concatenation of: \<open>get_models()\<close> of every distinct control value referenced in the
  conditioning set (each distinct one once, however many entries and branches refer to
  it), the second components of the gated values, the additional models of all entries
  of all branches, the models of the registered additional-models hooks, and the nested
  additional models of the primary resource. Its set of elements is the union of these.
  The list itself keeps repetitions: only the control values are deduplicated.
\<close>

theorem prepare_models_collected:
  assumes "fst (prepare_sampling_core w m noise_shape conds mo) = Inr (rm, cs, ms)"
  shows "\<exists>roots gl2.
           distinct roots \<and> set roots = set (referenced control conds)
         \<and> (\<forall>x\<in>set roots. call_get_models w x = Inr (models_of w x))
         \<and> list_all2 (\<lambda>x y. item1 x = Inr y) (referenced gligen conds) gl2
         \<and> ms = concat (map (models_of w) roots) @ gl2 @ referenced additional_models conds
                @ get_additional_models_from_model_options mo
                @ get_nested_additional_models m
         \<and> set ms = (\<Union>x\<in>set (referenced control conds). set (models_of w x))
                \<union> set gl2 \<union> set (referenced additional_models conds)
                \<union> set (get_additional_models_from_model_options mo)
                \<union> set (get_nested_additional_models m)"
proof -
  from prepare_sampling_core_Inr [OF assms] obtain ms0 hint where
    g: "get_additional_models w conds (model_dtype m) = Inr (ms0, hint)" and
    ms: "ms = ms0 @ get_additional_models_from_model_options mo
              @ get_nested_additional_models m"
    by blast
  from get_additional_models_Inr [OF g] obtain roots gl2 where
    r: "py_set w (referenced control conds) = Inr roots" and
    gl: "gligen_payloads (referenced gligen conds) = Inr gl2" and
    ms0: "ms0 = concat (map (models_of w) roots) @ gl2 @ referenced additional_models conds" and
    ok: "\<forall>x\<in>set roots. call_get_models w x = Inr (models_of w x)
           \<and> call_inference_memory_requirements w x (model_dtype m)
               = Inr (memory_of w (model_dtype m) x)"
    by blast
  from py_set_Inr [OF r] have d: "distinct roots" and s: "set roots = set (referenced control conds)"
    by simp_all
  have u: "set (concat (map (models_of w) roots))
             = (\<Union>x\<in>set (referenced control conds). set (models_of w x))"
    using s by auto
  have e: "ms = concat (map (models_of w) roots) @ gl2 @ referenced additional_models conds
                @ get_additional_models_from_model_options mo
                @ get_nested_additional_models m"
    using ms ms0 by simp
  have "set ms = (\<Union>x\<in>set (referenced control conds). set (models_of w x))
                \<union> set gl2 \<union> set (referenced additional_models conds)
                \<union> set (get_additional_models_from_model_options mo)
                \<union> set (get_nested_additional_models m)"
    unfolding e set_append u by blast
  with d s ok e gligen_payloads_Inr [OF gl] show ?thesis by blast
qed

lemma ex_prepare:
  "prepare_sampling_core ex_world ex_model [1, 4, 8, 8] ex_conds None =
     (Inr (50, ex_conds, [Obj 12, Obj 11, Obj 20, Obj 20, Obj 9, Obj 9, Obj 60]),
      [\<lparr>lr_models = [Obj 0, Obj 12, Obj 11, Obj 20, Obj 20, Obj 9, Obj 9, Obj 60],
        lr_memory_required = 612, lr_minimum_memory_required = 356\<rparr>])"
  by (simp add: prepare_defs ex_defs)

theorem prepare_models_collected_witness:
  "fst (prepare_sampling_core ex_world ex_model [1, 4, 8, 8] ex_conds None)
     = Inr (50, ex_conds, [Obj 12, Obj 11, Obj 20, Obj 20, Obj 9, Obj 9, Obj 60])
   \<and> (\<exists>roots gl2.
           distinct roots \<and> set roots = set (referenced control ex_conds)
         \<and> list_all2 (\<lambda>x y. item1 x = Inr y) (referenced gligen ex_conds) gl2
         \<and> [Obj 12, Obj 11, Obj 20, Obj 20, Obj 9, Obj 9, Obj 60]
             = concat (map (models_of ex_world) roots) @ gl2
               @ referenced additional_models ex_conds
               @ get_additional_models_from_model_options None
               @ get_nested_additional_models ex_model)"
proof -
  have h: "fst (prepare_sampling_core ex_world ex_model [1, 4, 8, 8] ex_conds None)
             = Inr (50, ex_conds, [Obj 12, Obj 11, Obj 20, Obj 20, Obj 9, Obj 9, Obj 60])"
    by (simp add: ex_prepare)
  from prepare_models_collected [OF h] h show ?thesis by blast
qed

text \<open>
  The claim as stated fails: in the scene both branches refer to the control resource 1,
  the gated model 20 and the attached model 9. The models of the control resource are
  collected once, the other two twice.
\<close>

theorem prepare_models_not_deduplicated:
  "fst (prepare_sampling_core ex_world ex_model [1, 4, 8, 8] ex_conds None)
     = Inr (50, ex_conds, [Obj 12, Obj 11, Obj 20, Obj 20, Obj 9, Obj 9, Obj 60])
   \<and> \<not> distinct [Obj 12, Obj 11, Obj 20, Obj 20, Obj 9, Obj 9, Obj 60]"
  by (simp add: prepare_defs ex_defs)

text \<open>
  In the scenario of the spec, where the control value of the negative branch is the tail
  of the chain of the positive one, the two control values are distinct and each reports
  the models of its chain: the model of the shared node is listed twice.
\<close>

lemma shared_tail_models:
  "get_additional_models ex_world ex_hook_conds ''float16'' = Inr ([Obj 12, Obj 11, Obj 12], 150)"
  by (simp add: prepare_defs ex_defs ex_hook_conds_def ex_hook_entry_def)

text \<open>
  Claim C8. When the collection of auxiliary resources raises, preparation raises the same
  exception and no load request has been issued. A control value that is an object
  without the capability \<open>get_models\<close> is such a case.
\<close>

theorem prepare_aborts_before_load:
  "(\<forall>e. get_additional_models w conds (model_dtype m) = Inl e
        \<longrightarrow> prepare_sampling_core w m noise_shape conds mo = (Inl e, []))
   \<and> (\<forall>r. Obj r \<in> set (referenced control conds) \<and> get_models (objs w r) = Absent
        \<longrightarrow> (\<exists>e. prepare_sampling_core w m noise_shape conds mo = (Inl e, [])))"
proof (intro conjI allI impI)
  fix e assume "get_additional_models w conds (model_dtype m) = Inl e"
  then show "prepare_sampling_core w m noise_shape conds mo = (Inl e, [])"
    by (simp add: prepare_sampling_core_def)
next
  fix r assume "Obj r \<in> set (referenced control conds) \<and> get_models (objs w r) = Absent"
  then obtain e where "get_additional_models w conds (model_dtype m) = Inl e"
    using get_additional_models_no_capability by blast
  then show "\<exists>e. prepare_sampling_core w m noise_shape conds mo = (Inl e, [])"
    by (simp add: prepare_sampling_core_def)
qed

theorem prepare_aborts_before_load_witness:
  "get_additional_models ex_world [(''positive'', [ex_entry (Obj 9)])] (model_dtype ex_model)
     = Inl AttributeError
   \<and> Obj 9 \<in> set (referenced control [(''positive'', [ex_entry (Obj 9)])])
   \<and> get_models (objs ex_world 9) = Absent
   \<and> prepare_sampling_core ex_world ex_model [1, 4, 8, 8] [(''positive'', [ex_entry (Obj 9)])] None
       = (Inl AttributeError, [])"
proof -
  have h: "get_additional_models ex_world [(''positive'', [ex_entry (Obj 9)])] (model_dtype ex_model)
             = Inl AttributeError"
    by (simp add: prepare_defs ex_defs)
  have r: "Obj 9 \<in> set (referenced control [(''positive'', [ex_entry (Obj 9)])])"
    by (simp add: referenced_def entry_values_def ex_defs)
  have a: "get_models (objs ex_world 9) = Absent"
    by (simp add: ex_defs)
  from prepare_aborts_before_load
         [of ex_world "[(''positive'', [ex_entry (Obj 9)])]" ex_model "[1, 4, 8, 8]" None]
  have "prepare_sampling_core ex_world ex_model [1, 4, 8, 8] [(''positive'', [ex_entry (Obj 9)])] None
          = (Inl AttributeError, [])"
    using h by blast
  with h r a show ?thesis by blast
qed

subsection \<open>The memory estimate\<close>

lemma collect_shapes_gen:
  "fold (\<lambda>(k, cs) acc. fold (\<lambda>cond acc'. fold shape_step (extra_conds_shapes m cond) acc') cs acc) conds st
   = fold shape_step (shape_items m conds) st"
proof (induction conds arbitrary: st)
  case Nil show ?case by (simp add: shape_items_def)
next
  case (Cons a conds)
  have inner: "\<And>cs st. fold (\<lambda>cond acc'. fold shape_step (extra_conds_shapes m cond) acc') cs st
      = fold shape_step (concat (map (extra_conds_shapes m) cs)) st"
    subgoal for cs st by (induction cs arbitrary: st) simp_all
    done
  show ?case using Cons by (cases a) (simp add: shape_items_def inner)
qed

lemma collect_shapes_eq: "collect_shapes m conds = fold shape_step (shape_items m conds) ([], [])"
  by (simp add: collect_shapes_def collect_shapes_gen)

lemma shape_step_fst:
  "map_of (fst (shape_step (k, v) st)) k' =
     (if k' = k then Some ((case map_of (fst st) k of None \<Rightarrow> [] | Some l \<Rightarrow> l) @ [v]) else map_of (fst st) k')"
  by (cases st) (simp add: shape_step_def update_conv')

lemma shape_step_snd:
  "map_of (snd (shape_step (k, v) st)) k' =
     (if k' = k then min_upd (map_of (snd st) k) v else map_of (snd st) k')"
  by (cases st) (auto simp add: shape_step_def update_conv' min_upd_def split: option.splits)

lemma fold_shape_step_fst:
  "map_of (fst (fold shape_step items st)) k =
     (if bucket_shapes k items = [] then map_of (fst st) k
      else Some ((case map_of (fst st) k of None \<Rightarrow> [] | Some l \<Rightarrow> l) @ bucket_shapes k items))"
proof (induction items arbitrary: st)
  case Nil show ?case by (simp add: bucket_shapes_def)
next
  case (Cons a items)
  obtain k' v where a: "a = (k', v)" by (cases a)
  show ?case
    by (simp add: a Cons.IH shape_step_fst bucket_shapes_def)
qed

lemma fold_shape_step_snd:
  "map_of (snd (fold shape_step items st)) k =
     fold (\<lambda>v cur. min_upd cur v) (bucket_shapes k items) (map_of (snd st) k)"
proof (induction items arbitrary: st)
  case Nil show ?case by (simp add: bucket_shapes_def)
next
  case (Cons a items)
  obtain k' v where a: "a = (k', v)" by (cases a)
  show ?case
    by (simp add: a Cons.IH shape_step_snd bucket_shapes_def)
qed

lemma map_of_Some_key: "map_of al k = Some v \<Longrightarrow> k \<in> fst ` set al"
  by (metis map_of_eq_None_iff option.distinct(1))

lemma shape_step_keys_fst:
  "map fst (fst (shape_step (k, v) st)) =
     (if k \<in> fst ` set (fst st) then map fst (fst st) else map fst (fst st) @ [k])"
  by (cases st) (simp add: shape_step_def update_keys)

lemma shape_step_keys_snd:
  assumes "map fst (fst st) = map fst (snd st)"
  shows "map fst (snd (shape_step (k, v) st)) = map fst (fst (shape_step (k, v) st))"
proof -
  obtain a b where st: "st = (a, b)" by (cases st)
  from assms st have ab: "map fst a = map fst b" by simp
  then have s: "fst ` set a = fst ` set b" by (metis set_map)
  show ?thesis
  proof (cases "map_of b k")
    case None
    then have "k \<notin> fst ` set b" by (simp add: map_of_eq_None_iff)
    with None s ab show ?thesis by (simp add: st shape_step_def update_keys)
  next
    case (Some c)
    then have "k \<in> fst ` set b" by (rule map_of_Some_key)
    with Some s ab show ?thesis by (simp add: st shape_step_def update_keys)
  qed
qed

lemma fold_shape_step_keys_snd:
  "map fst (fst st) = map fst (snd st) \<Longrightarrow>
     map fst (snd (fold shape_step items st)) = map fst (fst (fold shape_step items st))"
proof (induction items arbitrary: st)
  case Nil then show ?case by simp
next
  case (Cons a items)
  obtain k v where a: "a = (k, v)" by (cases a)
  from Cons.prems have "map fst (fst (shape_step (k, v) st)) = map fst (snd (shape_step (k, v) st))"
    by (simp add: shape_step_keys_snd)
  from Cons.IH [OF this] show ?case by (simp add: a)
qed

lemma first_seen_filter_removeAll:
  "removeAll k (filter P ks) = filter (\<lambda>x. P x \<and> x \<noteq> k) ks"
  by (induction ks) auto

lemma fold_shape_step_keys_fst:
  "map fst (fst (fold shape_step items st)) =
     map fst (fst st) @ first_seen (filter (\<lambda>k. k \<notin> fst ` set (fst st)) (map fst items))"
proof (induction items arbitrary: st)
  case Nil show ?case by simp
next
  case (Cons a items)
  obtain k v where a: "a = (k, v)" by (cases a)
  show ?case
  proof (cases "k \<in> fst ` set (fst st)")
    case True
    then have "fst ` set (fst (shape_step (k, v) st)) = fst ` set (fst st)"
      by (metis shape_step_keys_fst set_map)
    with True show ?thesis by (simp add: a Cons.IH shape_step_keys_fst)
  next
    case False
    then have "fst ` set (fst (shape_step (k, v) st)) = insert k (fst ` set (fst st))"
      using shape_step_keys_fst [of k v st] by (metis Un_insert_right append_Nil2 list.simps(15) set_append set_map)
    with False show ?thesis
      by (simp add: a Cons.IH shape_step_keys_fst first_seen_filter_removeAll conj_commute)
  qed
qed

lemma distinct_first_seen: "distinct (first_seen xs)"
proof (induction xs rule: first_seen.induct)
  case 1 show ?case by simp
next
  case (2 x xs)
  have "set (first_seen ys) \<subseteq> set ys" for ys :: "'a list"
    by (induction ys rule: first_seen.induct) auto
  then have "x \<notin> set (first_seen (removeAll x xs))" by fastforce
  with 2 show ?case by simp
qed

lemma largest_exists:
  fixes vs :: "shape list"
  assumes "vs \<noteq> []"
  shows "filter (\<lambda>v. \<forall>u\<in>set vs. prod_list u \<le> prod_list v) vs \<noteq> []"
proof -
  have "finite (prod_list ` set vs)" and "prod_list ` set vs \<noteq> {}" using assms by simp_all
  then have "Max (prod_list ` set vs) \<in> prod_list ` set vs" by (rule Max_in)
  then obtain x where x: "x \<in> set vs" and m: "prod_list x = Max (prod_list ` set vs)" by auto
  have "\<forall>u\<in>set vs. prod_list u \<le> prod_list x" by (simp add: m)
  with x show ?thesis by (auto simp: filter_empty_conv)
qed

lemma largest_first_in:
  fixes vs :: "shape list"
  assumes "vs \<noteq> []"
  shows "largest_first vs \<in> set vs"
    and "\<forall>u\<in>set vs. prod_list u \<le> prod_list (largest_first vs)"
proof -
  define f where "f = filter (\<lambda>v. \<forall>u\<in>set vs. prod_list u \<le> prod_list v) vs"
  have "f \<noteq> []" unfolding f_def by (rule largest_exists [OF assms])
  then have "hd f \<in> set f" by (rule hd_in_set)
  then have "hd f \<in> set vs \<and> (\<forall>u\<in>set vs. prod_list u \<le> prod_list (hd f))"
    unfolding f_def by simp
  moreover have "largest_first vs = hd f" by (simp add: largest_first_def f_def)
  ultimately show "largest_first vs \<in> set vs"
    and "\<forall>u\<in>set vs. prod_list u \<le> prod_list (largest_first vs)" by simp_all
qed

lemma largest_first_snoc:
  fixes vs :: "shape list"
  assumes "vs \<noteq> []"
  shows "largest_first (vs @ [v]) =
           (if prod_list v > prod_list (largest_first vs) then v else largest_first vs)"
proof (cases "prod_list v > prod_list (largest_first vs)")
  case True
  have "\<forall>u\<in>set vs. prod_list u < prod_list v"
    using largest_first_in(2) [OF assms] True by fastforce
  then have "filter (\<lambda>x. \<forall>u\<in>set (vs @ [v]). prod_list u \<le> prod_list x) (vs @ [v]) = [v]"
    by (auto simp: filter_empty_conv intro: less_imp_le)
  with True show ?thesis by (simp add: largest_first_def)
next
  case False
  then have le: "prod_list v \<le> prod_list (largest_first vs)" by simp
  define P where "P = (\<lambda>x. \<forall>u\<in>set vs. prod_list u \<le> prod_list x)"
  define P' where "P' = (\<lambda>x. \<forall>u\<in>set (vs @ [v]). prod_list u \<le> prod_list x)"
  have eq: "filter P' vs = filter P vs"
  proof (rule filter_cong [OF refl])
    fix x assume x: "x \<in> set vs"
    show "P' x = P x"
    proof
      assume "P' x"
      then show "P x" by (simp add: P_def P'_def)
    next
      assume a: "P x"
      with largest_first_in(1) [OF assms]
      have "prod_list (largest_first vs) \<le> prod_list x" by (simp add: P_def)
      with le a show "P' x" by (auto simp: P_def P'_def)
    qed
  qed
  have ne: "filter P vs \<noteq> []" unfolding P_def by (rule largest_exists [OF assms])
  have "largest_first (vs @ [v]) = hd (filter P' (vs @ [v]))"
    by (simp add: largest_first_def P'_def)
  also have "\<dots> = hd (filter P vs @ filter P' [v])" by (simp only: filter_append eq)
  also have "\<dots> = hd (filter P vs)" using ne by (rule hd_append2)
  also have "\<dots> = largest_first vs" by (simp add: largest_first_def P_def)
  finally show ?thesis using False by simp
qed

lemma fold_min_upd:
  "fold (\<lambda>v cur. min_upd cur v) vs None = (if vs = [] then None else Some [largest_first vs])"
proof (induction vs rule: rev_induct)
  case Nil show ?case by simp
next
  case (snoc v vs)
  show ?case
  proof (cases "vs = []")
    case True
    then show ?thesis by (simp add: min_upd_def largest_first_def)
  next
    case False
    with snoc show ?thesis by (simp add: min_upd_def largest_first_snoc)
  qed
qed

lemma collect_shapes_full:
  "map_of (fst (collect_shapes m conds)) k =
     (if bucket_shapes k (shape_items m conds) = [] then None
      else Some (bucket_shapes k (shape_items m conds)))"
  by (simp add: collect_shapes_eq fold_shape_step_fst)

lemma collect_shapes_min:
  "map_of (snd (collect_shapes m conds)) k =
     (if bucket_shapes k (shape_items m conds) = [] then None
      else Some [largest_first (bucket_shapes k (shape_items m conds))])"
  by (simp add: collect_shapes_eq fold_shape_step_snd fold_min_upd)

lemma collect_shapes_keys:
  "map fst (fst (collect_shapes m conds)) = first_seen (map fst (shape_items m conds))"
  "map fst (snd (collect_shapes m conds)) = first_seen (map fst (shape_items m conds))"
  by (simp_all add: collect_shapes_eq fold_shape_step_keys_fst fold_shape_step_keys_snd)

lemma alist_by_keys:
  "distinct (map fst al) \<Longrightarrow> (\<And>k. k \<in> fst ` set al \<Longrightarrow> map_of al k = Some (f k))
     \<Longrightarrow> al = map (\<lambda>k. (k, f k)) (map fst al)"
proof (induction al)
  case Nil show ?case by simp
next
  case (Cons a al)
  obtain k v where a: "a = (k, v)" by (cases a)
  from Cons.prems(2) [of k] a have v: "v = f k" by simp
  have "map_of al k' = Some (f k')" if k': "k' \<in> fst ` set al" for k'
  proof -
    from k' Cons.prems(1) a have "k' \<noteq> k" by auto
    moreover from k' a have "k' \<in> fst ` set (a # al)" by simp
    ultimately show ?thesis using Cons.prems(2) [of k'] a by simp
  qed
  with Cons.IH Cons.prems(1) have "al = map (\<lambda>k. (k, f k)) (map fst al)" by simp
  with a v show ?case by simp
qed

lemma set_first_seen: "set (first_seen xs) = set xs"
  by (induction xs rule: first_seen.induct) auto

lemma bucket_shapes_nonempty:
  "k \<in> set (map fst items) \<Longrightarrow> bucket_shapes k items \<noteq> []"
  by (auto simp: bucket_shapes_def filter_empty_conv)

lemma collect_shapes_required: "fst (collect_shapes m conds) = required_shapes m conds"
proof -
  let ?al = "fst (collect_shapes m conds)"
  have k: "map fst ?al = first_seen (map fst (shape_items m conds))"
    by (rule collect_shapes_keys)
  have d: "distinct (map fst ?al)" by (simp add: k distinct_first_seen)
  have "map_of ?al k = Some (bucket_shapes k (shape_items m conds))" if "k \<in> fst ` set ?al" for k
  proof -
    from that have "k \<in> set (map fst ?al)" by simp
    then have "k \<in> set (map fst (shape_items m conds))" unfolding k set_first_seen .
    then show ?thesis by (simp add: collect_shapes_full bucket_shapes_nonempty)
  qed
  from alist_by_keys [OF d this] show ?thesis by (simp add: k required_shapes_def)
qed

lemma collect_shapes_minimum: "snd (collect_shapes m conds) = minimum_shapes m conds"
proof -
  let ?al = "snd (collect_shapes m conds)"
  have k: "map fst ?al = first_seen (map fst (shape_items m conds))"
    by (rule collect_shapes_keys)
  have d: "distinct (map fst ?al)" by (simp add: k distinct_first_seen)
  have "map_of ?al k = Some [largest_first (bucket_shapes k (shape_items m conds))]"
    if "k \<in> fst ` set ?al" for k
  proof -
    from that have "k \<in> set (map fst ?al)" by simp
    then have "k \<in> set (map fst (shape_items m conds))" unfolding k set_first_seen .
    then show ?thesis by (simp add: collect_shapes_min bucket_shapes_nonempty)
  qed
  from alist_by_keys [OF d this] show ?thesis by (simp add: k minimum_shapes_def)
qed

lemma estimate_memory_eq:
  "estimate_memory m (n0 # rest) conds =
     Inr (memory_required m ((n0 * 2) # rest) (required_shapes m conds),
          memory_required m (n0 # rest) (minimum_shapes m conds))"
  by (simp add: estimate_memory_def collect_shapes_required [symmetric] collect_shapes_minimum [symmetric]
        split: prod.splits)

lemma minimum_le_required_shapes: "shapes_le (minimum_shapes m conds) (required_shapes m conds)"
proof -
  have "\<forall>k\<in>set (first_seen (map fst (shape_items m conds))).
          subseq [largest_first (bucket_shapes k (shape_items m conds))] (bucket_shapes k (shape_items m conds))"
    unfolding set_first_seen
    by (simp add: subseq_singleton_left largest_first_in(1) bucket_shapes_nonempty)
  then show ?thesis
    by (simp add: shapes_le_def minimum_shapes_def required_shapes_def list_all2_map1 list_all2_map2 list_all2_same)
qed

lemma shapes_le_length:
  "shapes_le a b \<Longrightarrow> length (concat (map snd a)) \<le> length (concat (map snd b))"
  unfolding shapes_le_def
  by (induction a b rule: list_all2_induct) (auto dest: list_emb_length simp: add_mono)

lemma sum_list_map_nonneg:
  fixes f :: "'a \<Rightarrow> int"
  shows "\<forall>y\<in>set ys. 0 \<le> f y \<Longrightarrow> 0 \<le> sum_list (map f ys)"
  by (induction ys) auto

lemma subseq_sum_le:
  fixes f :: "'a \<Rightarrow> int"
  shows "subseq xs ys \<Longrightarrow> \<forall>y\<in>set ys. 0 \<le> f y \<Longrightarrow> sum_list (map f xs) \<le> sum_list (map f ys)"
  by (induction rule: list_emb.induct) (auto simp: add_increasing sum_list_map_nonneg)

lemma shapes_le_sum_le:
  fixes f :: "shape \<Rightarrow> int"
  shows "shapes_le a b \<Longrightarrow> \<forall>s\<in>set (concat (map snd b)). 0 \<le> f s
     \<Longrightarrow> sum_list (map f (concat (map snd a))) \<le> sum_list (map f (concat (map snd b)))"
  unfolding shapes_le_def
proof (induction a b rule: list_all2_induct)
  case Nil then show ?case by simp
next
  case (Cons x xs y ys)
  from Cons.hyps(1) Cons.prems have "sum_list (map f (snd x)) \<le> sum_list (map f (snd y))"
    by (intro subseq_sum_le) auto
  moreover from Cons.IH Cons.prems
  have "sum_list (map f (concat (map snd xs))) \<le> sum_list (map f (concat (map snd ys)))" by auto
  ultimately show ?case by simp
qed

text \<open>
  Functions that qualify: the volume of the output shape, wherever the volume of the
  trailing dimensions is not negative; the area of the output shape plus the areas of
  the shapes of the dictionary, wherever these areas are not negative; a count of the
  shapes, everywhere.
\<close>

lemma volume_memory_monotone:
  assumes "memory_required m = (\<lambda>s cs. prod_list s)" and "0 \<le> prod_list rest"
  shows "monotone_memory_at m rest b"
  using assms by (simp add: monotone_memory_at_def mult_right_mono)

lemma area_memory_monotone:
  assumes "memory_required m = (\<lambda>s cs. area s + sum_list (map area (concat (map snd cs))))"
    and "0 \<le> prod_list (tl rest)" and "\<forall>s\<in>set (concat (map snd b)). 0 \<le> area s"
  shows "monotone_memory_at m rest b"
  unfolding monotone_memory_at_def
proof (intro allI impI, elim conjE)
  fix n n' :: int and a
  assume "0 \<le> n" "n \<le> n'" "shapes_le a b"
  from shapes_le_sum_le [OF this(3) assms(3)]
  have "sum_list (map area (concat (map snd a))) \<le> sum_list (map area (concat (map snd b)))" .
  moreover from \<open>n \<le> n'\<close> assms(2) have "area (n # rest) \<le> area (n' # rest)"
    by (simp add: area_def mult_right_mono)
  ultimately show "memory_required m (n # rest) a \<le> memory_required m (n' # rest) b"
    by (simp add: assms(1))
qed

lemma count_memory_monotone: "monotone_memory_at ex_shape_model rest b"
  unfolding monotone_memory_at_def
proof (intro allI impI, elim conjE)
  fix n n' :: int and a
  assume "0 \<le> n" "n \<le> n'" "shapes_le a b"
  from shapes_le_length [OF this(3)]
  have "int (length (concat (map snd a))) \<le> int (length (concat (map snd b)))" by simp
  with \<open>n \<le> n'\<close> show "memory_required ex_shape_model (n # rest) a \<le> memory_required ex_shape_model (n' # rest) b"
    by (simp add: ex_shape_model_def)
qed

lemma ex_model_monotone: "0 \<le> prod_list rest \<Longrightarrow> monotone_memory_at ex_model rest b"
  by (rule volume_memory_monotone) (simp_all add: ex_model_def)

lemma find_hd_filter: "filter P vs = x # rest \<Longrightarrow> List.find P vs = Some x"
  by (induction vs) (auto split: if_splits)

lemma largest_first_spec:
  fixes vs :: "shape list"
  assumes "vs \<noteq> []"
  shows "\<exists>i<length vs. largest_first vs = vs ! i
           \<and> (\<forall>j<length vs. prod_list (vs ! j) \<le> prod_list (vs ! i))
           \<and> (\<forall>j<i. prod_list (vs ! j) < prod_list (vs ! i))"
proof -
  define P where "P = (\<lambda>v. \<forall>u\<in>set vs. prod_list u \<le> prod_list v)"
  have ne: "filter P vs \<noteq> []" unfolding P_def by (rule largest_exists [OF assms])
  then obtain x rest where f: "filter P vs = x # rest" by (cases "filter P vs") auto
  then have "List.find P vs = Some x" by (rule find_hd_filter)
  then obtain i where i: "i < length vs" "P (vs ! i)" "x = vs ! i" "\<forall>j<i. \<not> P (vs ! j)"
    by (auto simp: find_Some_iff)
  have lf: "largest_first vs = vs ! i" using f i(3) by (simp add: largest_first_def P_def [symmetric])
  have a: "\<forall>j<length vs. prod_list (vs ! j) \<le> prod_list (vs ! i)"
    using i(2) by (auto simp: P_def)
  have b: "\<forall>j<i. prod_list (vs ! j) < prod_list (vs ! i)"
  proof (intro allI impI)
    fix j assume j: "j < i"
    with i(4) have "\<not> P (vs ! j)" by simp
    then obtain u where u: "u \<in> set vs" "prod_list (vs ! j) < prod_list u"
      by (auto simp: P_def not_le)
    with i(2) have "prod_list u \<le> prod_list (vs ! i)" by (simp add: P_def)
    with u(2) show "prod_list (vs ! j) < prod_list (vs ! i)" by simp
  qed
  from i(1) lf a b show ?thesis by blast
qed

text \<open>
  Claim C3. On an output shape with a leading dimension, \<open>estimate_memory\<close> returns
  \<open>memory_required\<close> of the shape with the leading dimension doubled and, per bucket, the
  full list of the shapes seen across all entries of all branches, paired with
  \<open>memory_required\<close> of the shape as given and, per bucket, the single shape of largest
  volume, the first one seen among those of largest volume.
\<close>

theorem estimate_memory_calls:
  "estimate_memory m (n0 # rest) conds =
     Inr (memory_required m ((n0 * 2) # rest) (required_shapes m conds),
          memory_required m (n0 # rest) (minimum_shapes m conds))"
  by (rule estimate_memory_eq)

lemmas shape_defs = required_shapes_def minimum_shapes_def shape_items_def bucket_shapes_def
  largest_first_def ex_shape_model_def ex_shape_conds_def ex_shape_entry_def

theorem estimate_memory_calls_witness:
  "estimate_memory ex_shape_model [1, 4, 8, 8] ex_shape_conds = Inr (24, 12)
   \<and> required_shapes ex_shape_model ex_shape_conds
       = [(''context'', [[2, 4, 8], [2, 4, 16], [2, 16, 4]]), (''ref'', [[1, 16]])]
   \<and> minimum_shapes ex_shape_model ex_shape_conds
       = [(''context'', [[2, 4, 16]]), (''ref'', [[1, 16]])]"
  using estimate_memory_calls [of ex_shape_model 1 "[4, 8, 8]" ex_shape_conds]
  by (simp add: shape_defs)

lemmas area_defs = required_shapes_def minimum_shapes_def shape_items_def bucket_shapes_def
  largest_first_def ex_area_model_def ex_shape_model_def ex_shape_conds_def ex_shape_entry_def area_def

lemma ex_area_required:
  "required_shapes ex_area_model ex_shape_conds
       = [(''context'', [[2, 4, 8], [2, 4, 16], [2, 16, 4]]), (''ref'', [[1, 16]])]"
  by (simp add: area_defs)

lemma ex_area_monotone:
  "monotone_memory_at ex_area_model [4, 8, 8] (required_shapes ex_area_model ex_shape_conds)"
  unfolding ex_area_required
  by (rule area_memory_monotone) (simp_all add: ex_area_model_def area_def)

lemma ex_area_estimate: "estimate_memory ex_area_model [1, 4, 8, 8] ex_shape_conds = Inr (185, 97)"
  by (simp add: estimate_memory_eq area_defs)

text \<open>
  Claim C4. For a primary resource whose memory-requirement function is a cost, that is,
  one that at the trailing dimensions of the output shape does not decrease when the
  leading dimension grows and when buckets receive shapes up to those seen in the
  conditioning set, and for an output shape whose leading dimension is not negative,
  \<open>estimate_memory\<close> returns a pair whose minimum component is at most its required
  component.
\<close>

theorem minimum_le_required:
  assumes "monotone_memory_at m rest (required_shapes m conds)" and "0 \<le> n0"
  shows "\<exists>req mn. estimate_memory m (n0 # rest) conds = Inr (req, mn) \<and> mn \<le> req"
proof -
  from assms(2) have "n0 \<le> n0 * 2" by simp
  with assms minimum_le_required_shapes [of m conds]
  have "memory_required m (n0 # rest) (minimum_shapes m conds)
          \<le> memory_required m ((n0 * 2) # rest) (required_shapes m conds)"
    unfolding monotone_memory_at_def by blast
  then show ?thesis by (simp add: estimate_memory_eq)
qed

theorem minimum_le_required_witness:
  "monotone_memory_at ex_area_model [4, 8, 8] (required_shapes ex_area_model ex_shape_conds)
   \<and> estimate_memory ex_area_model [1, 4, 8, 8] ex_shape_conds = Inr (185, 97) \<and> (97 :: int) \<le> 185"
  using minimum_le_required [OF ex_area_monotone, of 1] ex_area_monotone ex_area_estimate by simp

text \<open>
  The order of the two components is inherited from the function of the resource:
  \<open>estimate_memory\<close> calls it twice and compares nothing. With a function outside the
  hypothesis, one that decreases with the size of the output, or with a negative leading
  dimension, the two components come in the other order.
\<close>

lemma estimate_memory_order_inherited:
  "estimate_memory ex_decreasing_model [1, 4, 8, 8] ex_conds = Inr (488, 744)
   \<and> estimate_memory ex_model [- 1, 4, 8, 8] ex_conds = Inr (- 512, - 256)"
  by (simp add: estimate_memory_eq ex_decreasing_model_def ex_model_def)

subsection \<open>The load request\<close>

lemma prepare_sampling_core_loads:
  assumes "get_additional_models w conds (model_dtype m) = Inr (ms0, hint)"
      and "estimate_memory m noise_shape conds = Inr (req, mn)"
  shows "prepare_sampling_core w m noise_shape conds mo =
           (let ms = ms0 @ get_additional_models_from_model_options mo @ get_nested_additional_models m;
                r = \<lparr>lr_models = Obj (patcher_ref m) # ms, lr_memory_required = req + hint,
                     lr_minimum_memory_required = mn + hint\<rparr>
            in (case load_models_gpu w r of Some e \<Rightarrow> Inl e | None \<Rightarrow> Inr (base_model m, conds, ms), [r]))"
  using assms by (simp add: prepare_sampling_core_def Let_def split: option.splits)

text \<open>
  Claim C5. When the collection and the estimate return, \<open>_prepare_sampling\<close> issues
  exactly one load request: its resources are the primary resource followed by the
  collected auxiliary resources (the list that is returned when the load succeeds), its
  required memory is the required estimate plus the hint, its minimum memory is the
  minimum estimate plus the hint, and the hint is the sum of
  \<open>inference_memory_requirements(dtype)\<close> over the distinct control values.
\<close>

theorem prepare_single_load:
  assumes "get_additional_models w conds (model_dtype m) = Inr (ms0, hint)"
      and "estimate_memory m noise_shape conds = Inr (req, mn)"
  shows "snd (prepare_sampling_core w m noise_shape conds mo) =
           [\<lparr>lr_models = Obj (patcher_ref m) # ms0 @ get_additional_models_from_model_options mo
                           @ get_nested_additional_models m,
             lr_memory_required = req + hint,
             lr_minimum_memory_required = mn + hint\<rparr>]
         \<and> hint = (\<Sum>x\<in>set (referenced control conds). memory_of w (model_dtype m) x)
         \<and> (\<forall>x\<in>set (referenced control conds).
               call_inference_memory_requirements w x (model_dtype m) = Inr (memory_of w (model_dtype m) x))
         \<and> (\<forall>rm cs ms. fst (prepare_sampling_core w m noise_shape conds mo) = Inr (rm, cs, ms)
               \<longrightarrow> ms = ms0 @ get_additional_models_from_model_options mo @ get_nested_additional_models m)"
proof -
  from get_additional_models_Inr [OF assms(1)] obtain roots where
    r: "py_set w (referenced control conds) = Inr roots" and
    h: "hint = sum_list (map (memory_of w (model_dtype m)) roots)" and
    ok: "\<forall>x\<in>set roots. call_get_models w x = Inr (models_of w x)
           \<and> call_inference_memory_requirements w x (model_dtype m)
               = Inr (memory_of w (model_dtype m) x)"
    by blast
  from py_set_Inr [OF r] have d: "distinct roots" and s: "set roots = set (referenced control conds)"
    by simp_all
  from h d s have "hint = (\<Sum>x\<in>set (referenced control conds). memory_of w (model_dtype m) x)"
    by (simp add: sum_list_distinct_conv_sum_set)
  moreover from ok s have "\<forall>x\<in>set (referenced control conds).
               call_inference_memory_requirements w x (model_dtype m) = Inr (memory_of w (model_dtype m) x)"
    by simp
  ultimately show ?thesis
    by (auto simp: prepare_sampling_core_loads [OF assms] Let_def split: option.splits)
qed

lemma ex_get_additional_models:
  "get_additional_models ex_world ex_conds (model_dtype ex_model)
     = Inr ([Obj 12, Obj 11, Obj 20, Obj 20, Obj 9, Obj 9], 100)"
  by (simp add: prepare_defs ex_defs)

lemma ex_estimate_plain: "estimate_memory ex_model [1, 4, 8, 8] ex_conds = Inr (512, 256)"
  by (simp add: estimate_memory_eq shape_defs ex_defs)

theorem prepare_single_load_witness:
  "snd (prepare_sampling_core ex_world ex_model [1, 4, 8, 8] ex_conds None) =
     [\<lparr>lr_models = [Obj 0, Obj 12, Obj 11, Obj 20, Obj 20, Obj 9, Obj 9, Obj 60],
       lr_memory_required = 612, lr_minimum_memory_required = 356\<rparr>]
   \<and> (100 :: int) = (\<Sum>x\<in>set (referenced control ex_conds). memory_of ex_world (model_dtype ex_model) x)"
  using prepare_single_load [OF ex_get_additional_models ex_estimate_plain, of None]
  by (simp add: ex_model_def get_additional_models_from_model_options_def)

subsection \<open>Cleanup\<close>

lemma cleanup_additional_models_count:
  "count_list (cleanup_additional_models w ms tr) r =
     count_list tr r + (if cleanup (objs w r) then count_list ms (Obj r) else 0)"
  unfolding cleanup_additional_models_def
  by (induction ms arbitrary: tr) (auto split: pyval.splits)

lemma distinct_count_list: "distinct xs \<Longrightarrow> count_list xs x = (if x \<in> set xs then 1 else 0)"
  by (induction xs) auto

subsection \<open>Traversal of control chains\<close>

lemma get_extra_hooks_chain:
  "is_chain w ns \<Longrightarrow> length ns \<le> depth \<Longrightarrow>
     get_extra_hooks_from_cnet depth w (hd ns) st
       = Inr (fst st @ concat (map (node_hooks w) ns), snd st @ ns)"
proof (induction depth arbitrary: ns st)
  case 0
  then show ?case by (cases ns) auto
next
  case (Suc depth)
  show ?case
  proof (cases ns)
    case Nil
    with Suc.prems show ?thesis by simp
  next
    case (Cons r tl)
    show ?thesis
    proof (cases tl)
    case Nil
    with Suc.prems Cons show ?thesis
      by (auto simp: node_hooks_def Let_def split: attr.splits option.splits)
  next
    case (Cons p rest)
    note more = \<open>ns = r # tl\<close> Cons
    with Suc.prems have
      prev: "previous_controlnet (objs w r) = Present (Some p)" and
      eh: "extra_hooks (objs w r) \<noteq> Absent" and
      ch: "is_chain w (p # rest)" and len: "length (p # rest) \<le> depth"
      by auto
    from eh obtain e where e: "extra_hooks (objs w r) = Present e"
      by (cases "extra_hooks (objs w r)") auto
    from Suc.IH [OF ch len] e prev more show ?thesis
      by (auto simp: node_hooks_def Let_def split: option.splits)
  qed
  qed
qed

lemma get_extra_hooks_too_deep:
  "is_chain w ns \<Longrightarrow> depth < length ns \<Longrightarrow>
     get_extra_hooks_from_cnet depth w (hd ns) st = Inl RecursionError"
proof (induction depth arbitrary: ns st)
  case 0
  then show ?case by simp
next
  case (Suc depth)
  show ?case
  proof (cases ns)
    case Nil
    with Suc.prems show ?thesis by simp
  next
    case (Cons r tl)
    show ?thesis
    proof (cases tl)
    case Nil
    with Suc.prems Cons show ?thesis by simp
  next
    case (Cons p rest)
    note more = \<open>ns = r # tl\<close> Cons
    with Suc.prems have
      prev: "previous_controlnet (objs w r) = Present (Some p)" and
      eh: "extra_hooks (objs w r) \<noteq> Absent" and
      ch: "is_chain w (p # rest)" and len: "depth < length (p # rest)"
      by auto
    from eh obtain e where e: "extra_hooks (objs w r) = Present e"
      by (cases "extra_hooks (objs w r)") auto
    from Suc.IH [OF ch len] e prev more show ?thesis
      by (auto simp: Let_def split: option.splits)
  qed
  qed
qed

lemma follow_add: "follow w (a + b) r = (case follow w a r of None \<Rightarrow> None | Some x \<Rightarrow> follow w b x)"
  by (induction a arbitrary: r) (auto split: attr.splits option.splits)

lemma follow_prefix: "follow w (a + b) r \<noteq> None \<Longrightarrow> follow w a r \<noteq> None"
  by (auto simp: follow_add split: option.splits)

lemma follow_cycle_mult:
  assumes "follow w n x = Some x"
  shows "follow w (m * n) x = Some x"
proof (induction m)
  case 0 show ?case by simp
next
  case (Suc m)
  have "follow w (Suc m * n) x = follow w (m * n + n) x" by (simp add: add.commute)
  also have "\<dots> = Some x" using Suc assms by (simp add: follow_add)
  finally show ?case .
qed

lemma cycle_never_ends:
  assumes "follow w k r = Some x" and "0 < n" and "follow w n x = Some x"
  shows "follow w j r \<noteq> None"
proof -
  have "follow w (k + j * n) r = Some x"
    using assms(1) follow_cycle_mult [OF assms(3)] by (simp add: follow_add)
  moreover have "j \<le> k + j * n" using assms(2) by (simp add: trans_le_add2)
  then obtain b where "k + j * n = j + b" using le_Suc_ex by blast
  ultimately have "follow w (j + b) r \<noteq> None" by simp
  then show ?thesis by (rule follow_prefix)
qed

lemma get_extra_hooks_never_ends:
  "(\<And>j. follow w j r \<noteq> None) \<Longrightarrow> \<exists>e. get_extra_hooks_from_cnet depth w r st = Inl e"
proof (induction depth arbitrary: r st)
  case 0
  show ?case by simp
next
  case (Suc depth)
  from Suc.prems [of 1] obtain p where p: "previous_controlnet (objs w r) = Present (Some p)"
    by (auto split: attr.splits option.splits)
  have "follow w j p \<noteq> None" for j
    using Suc.prems [of "Suc j"] p by simp
  from Suc.IH [OF this] p show ?case
    by (auto simp: Let_def split: attr.splits)
qed

lemma is_chain_follow:
  "is_chain w ns \<Longrightarrow> follow w (length ns) (hd ns) = None"
proof (induction ns rule: is_chain.induct)
  case (1 w) then show ?case by simp
next
  case (2 w r) then show ?case by simp
next
  case (3 w r p rest) then show ?case by simp
qed

subsection \<open>Collecting the hooks\<close>

lemma fold_add_set: "set (fold (\<lambda>h a. add a h) g fh) = set fh \<union> set g"
  by (induction g arbitrary: fh) (auto simp: add_def)

lemma fold_add_distinct: "distinct fh \<Longrightarrow> distinct (fold (\<lambda>h a. add a h) g fh)"
  by (induction g arbitrary: fh) (auto simp: add_def)

lemma cond_hooks_loop_gen:
  "fold (\<lambda>c (fh, cnets).
             ((case hooks c of None \<Rightarrow> fh | Some g \<Rightarrow> fold (\<lambda>h a. add a h) g fh),
              (case control c of None \<Rightarrow> cnets | Some v \<Rightarrow> cnets @ [v])))
          cond (fh, cn) = (fh', cn')
   \<Longrightarrow> cn' = cn @ branch_controls cond \<and> set fh' = set fh \<union> set (branch_hooks cond)
       \<and> (distinct fh \<longrightarrow> distinct fh')"
proof (induction cond arbitrary: fh cn)
  case Nil
  then show ?case by (simp add: branch_controls_def branch_hooks_def)
next
  case (Cons c cond)
  let ?fh1 = "case hooks c of None \<Rightarrow> fh | Some g \<Rightarrow> fold (\<lambda>h a. add a h) g fh"
  let ?cn1 = "case control c of None \<Rightarrow> cn | Some v \<Rightarrow> cn @ [v]"
  from Cons.prems have "fold (\<lambda>c (fh, cnets).
             ((case hooks c of None \<Rightarrow> fh | Some g \<Rightarrow> fold (\<lambda>h a. add a h) g fh),
              (case control c of None \<Rightarrow> cnets | Some v \<Rightarrow> cnets @ [v])))
          cond (?fh1, ?cn1) = (fh', cn')" by simp
  from Cons.IH [OF this] have
    a: "cn' = ?cn1 @ branch_controls cond" and
    b: "set fh' = set ?fh1 \<union> set (branch_hooks cond)" and
    c: "distinct ?fh1 \<longrightarrow> distinct fh'" by simp_all
  have s1: "set ?fh1 = set fh \<union> set (case hooks c of None \<Rightarrow> [] | Some g \<Rightarrow> g)"
    by (simp add: fold_add_set split: option.splits)
  have d1: "distinct fh \<longrightarrow> distinct ?fh1"
    by (simp add: fold_add_distinct split: option.splits)
  from a b c s1 d1 show ?case
    by (auto simp: branch_controls_def branch_hooks_def split: option.splits)
qed

lemma cond_hooks_loop_eq:
  "cond_hooks_loop cond fh = (fh', cn')
   \<Longrightarrow> cn' = branch_controls cond \<and> set fh' = set fh \<union> set (branch_hooks cond)
       \<and> (distinct fh \<longrightarrow> distinct fh')"
  unfolding cond_hooks_loop_def using cond_hooks_loop_gen [of cond fh "[]" fh' cn'] by simp

lemma combine_all_hooks_Some:
  "combine_all_hooks gs = Some extra \<Longrightarrow> set extra = \<Union> (set ` set gs)"
proof -
  have "set (fold (\<lambda>g acc. fold (\<lambda>h a. add a h) g acc) gs acc) = set acc \<union> \<Union> (set ` set gs)" for acc
    by (induction gs arbitrary: acc) (auto simp: fold_add_set)
  then show "combine_all_hooks gs = Some extra \<Longrightarrow> set extra = \<Union> (set ` set gs)"
    by (auto simp: combine_all_hooks_def split: if_splits)
qed

lemma combine_all_hooks_None: "combine_all_hooks gs = None \<Longrightarrow> gs = []"
  by (simp add: combine_all_hooks_def split: if_splits)

lemma get_extra_hooks_Inr:
  "get_extra_hooks_from_cnet depth w r st = Inr st' \<Longrightarrow>
     \<exists>ns. is_chain w ns \<and> hd ns = r \<and> length ns \<le> depth
        \<and> st' = (fst st @ concat (map (node_hooks w) ns), snd st @ ns)"
proof (induction depth arbitrary: r st)
  case 0
  then show ?case by simp
next
  case (Suc depth)
  from Suc.prems obtain e where e: "extra_hooks (objs w r) = Present e"
    by (auto split: attr.splits)
  let ?st1 = "((case e of None \<Rightarrow> fst st | Some g \<Rightarrow> fst st @ [g]), snd st @ [r])"
  have nh: "fst ?st1 = fst st @ concat (map (node_hooks w) [r])"
    using e by (simp add: node_hooks_def split: option.splits)
  from Suc.prems e obtain po where po: "previous_controlnet (objs w r) = Present po"
    by (auto simp: Let_def split: attr.splits)
  show ?case
  proof (cases po)
    case None
    with Suc.prems e po have "st' = ?st1" by (simp add: Let_def)
    with nh have "st' = (fst st @ concat (map (node_hooks w) [r]), snd st @ [r])" by simp
    moreover have "is_chain w [r]" using e po None by simp
    ultimately show ?thesis by (intro exI [of _ "[r]"]) simp
  next
    case (Some p)
    with Suc.prems e po have "get_extra_hooks_from_cnet depth w p ?st1 = Inr st'"
      by (simp add: Let_def)
    from Suc.IH [OF this] obtain ns where
      ns: "is_chain w ns" "hd ns = p" "length ns \<le> depth"
        "st' = (fst ?st1 @ concat (map (node_hooks w) ns), snd ?st1 @ ns)"
      by blast
    from ns(1,2) obtain rest where rest: "ns = p # rest" by (cases ns) auto
    have "is_chain w (r # ns)" using e po Some ns(1) rest by simp
    moreover have "st' = (fst st @ concat (map (node_hooks w) (r # ns)), snd st @ (r # ns))"
      using ns(4) nh by simp
    ultimately show ?thesis using ns(3) by (intro exI [of _ "r # ns"]) simp
  qed
qed

lemma base_cnet_loop_Inr:
  "base_cnet_loop depth w cs st = Inr st' \<Longrightarrow>
     \<exists>chs. list_all2 (\<lambda>c ns. c = Obj (hd ns) \<and> is_chain w ns) cs chs
        \<and> st' = (fst st @ concat (map (node_hooks w) (concat chs)), snd st @ concat chs)"
proof (induction cs arbitrary: st)
  case Nil
  then show ?case by simp
next
  case (Cons c cs)
  from Cons.prems obtain r where r: "c = Obj r" by (cases c) auto
  with Cons.prems obtain st1 where
    g: "get_extra_hooks_from_cnet depth w r st = Inr st1" and
    l: "base_cnet_loop depth w cs st1 = Inr st'"
    by (auto split: sum.splits)
  from get_extra_hooks_Inr [OF g] obtain ns where
    ns: "is_chain w ns" "hd ns = r"
        "st1 = (fst st @ concat (map (node_hooks w) ns), snd st @ ns)" by blast
  from Cons.IH [OF l] obtain chs where
    ch: "list_all2 (\<lambda>c ns. c = Obj (hd ns) \<and> is_chain w ns) cs chs"
        "st' = (fst st1 @ concat (map (node_hooks w) (concat chs)), snd st1 @ concat chs)"
    by blast
  show ?case
    using r ns ch by (intro exI [of _ "ns # chs"]) simp
qed

lemma node_hooks_union:
  "\<Union> (set ` set (concat (map (node_hooks w) ns))) = (\<Union>r\<in>set ns. \<Union> (set ` set (node_hooks w r)))"
  by auto

lemma get_hooks_from_cond_Inr:
  assumes "get_hooks_from_cond depth w cond (fh, visited) = Inr (fh', visited')"
  shows "\<exists>chs. visits_of_branch w cond chs
           \<and> visited' = visited @ concat chs
           \<and> set fh' = set fh \<union> set (branch_hooks cond)
                        \<union> (\<Union>r\<in>set (concat chs). \<Union> (set ` set (node_hooks w r)))
           \<and> (distinct fh \<longrightarrow> distinct fh')"
proof -
  obtain full cnets where c: "cond_hooks_loop cond fh = (full, cnets)" by (cases "cond_hooks_loop cond fh")
  from cond_hooks_loop_eq [OF c] have
    cn: "cnets = branch_controls cond" and
    sf: "set full = set fh \<union> set (branch_hooks cond)" and
    df: "distinct fh \<longrightarrow> distinct full" by simp_all
  from assms c obtain roots where roots: "py_set w cnets = Inr roots"
    by (auto simp: get_hooks_from_cond_def split: sum.splits)
  from assms c roots obtain hooks_list where
    b: "base_cnet_loop depth w roots ([], visited) = Inr (hooks_list, visited')" and
    r: "fh' = (case combine_all_hooks hooks_list of None \<Rightarrow> full
               | Some extra \<Rightarrow> fold (\<lambda>h a. add a h) extra full)"
    by (auto simp: get_hooks_from_cond_def split: sum.splits option.splits)
  from base_cnet_loop_Inr [OF b] obtain chs where
    ch: "list_all2 (\<lambda>c ns. c = Obj (hd ns) \<and> is_chain w ns) roots chs" and
    hl: "hooks_list = concat (map (node_hooks w) (concat chs))" and
    v: "visited' = visited @ concat chs" by auto
  from py_set_Inr [OF roots] cn have "distinct roots" "set roots = set (branch_controls cond)"
    by simp_all
  with ch have vb: "visits_of_branch w cond chs" unfolding visits_of_branch_def by blast
  have s: "set fh' = set full \<union> \<Union> (set ` set hooks_list)"
  proof (cases "combine_all_hooks hooks_list")
    case None
    with r combine_all_hooks_None [OF None] show ?thesis by simp
  next
    case (Some extra)
    with r combine_all_hooks_Some [OF Some] show ?thesis by (simp add: fold_add_set)
  qed
  have d: "distinct fh \<longrightarrow> distinct fh'"
    using r df by (auto simp: fold_add_distinct split: option.splits)
  from s sf hl have "set fh' = set fh \<union> set (branch_hooks cond)
                        \<union> (\<Union>r\<in>set (concat chs). \<Union> (set ` set (node_hooks w r)))"
    unfolding hl node_hooks_union by simp
  with vb v d show ?thesis by blast
qed

lemma collect_hooks_Inr:
  "collect_hooks depth w conds (fh, visited) = Inr (fh', visited') \<Longrightarrow>
     \<exists>chss. list_all2 (\<lambda>kv chs. visits_of_branch w (snd kv) chs) conds chss
        \<and> visited' = visited @ concat (map concat chss)
        \<and> set fh' = set fh \<union> (\<Union>kv\<in>set conds. set (branch_hooks (snd kv)))
                     \<union> (\<Union>r\<in>set (concat (map concat chss)). \<Union> (set ` set (node_hooks w r)))
        \<and> (distinct fh \<longrightarrow> distinct fh')"
proof (induction conds arbitrary: fh visited)
  case Nil
  then show ?case by simp
next
  case (Cons kv conds)
  from Cons.prems obtain fh1 v1 where
    g: "get_hooks_from_cond depth w (snd kv) (fh, visited) = Inr (fh1, v1)" and
    c: "collect_hooks depth w conds (fh1, v1) = Inr (fh', visited')"
    by (auto split: sum.splits)
  from get_hooks_from_cond_Inr [OF g] obtain chs where
    a: "visits_of_branch w (snd kv) chs" "v1 = visited @ concat chs"
       "set fh1 = set fh \<union> set (branch_hooks (snd kv))
                        \<union> (\<Union>r\<in>set (concat chs). \<Union> (set ` set (node_hooks w r)))"
       "distinct fh \<longrightarrow> distinct fh1" by blast
  from Cons.IH [OF c] obtain chss where
    b: "list_all2 (\<lambda>kv chs. visits_of_branch w (snd kv) chs) conds chss"
       "visited' = v1 @ concat (map concat chss)"
       "set fh' = set fh1 \<union> (\<Union>kv\<in>set conds. set (branch_hooks (snd kv)))
                     \<union> (\<Union>r\<in>set (concat (map concat chss)). \<Union> (set ` set (node_hooks w r)))"
       "distinct fh1 \<longrightarrow> distinct fh'" by blast
  have "set fh' = set fh \<union> (\<Union>kv\<in>set (kv # conds). set (branch_hooks (snd kv)))
                     \<union> (\<Union>r\<in>set (concat (map concat (chs # chss))). \<Union> (set ` set (node_hooks w r)))"
    unfolding b(3) a(3) by auto
  with a b show ?case
    by (intro exI [of _ "chs # chss"]) simp
qed

lemma is_chain_nth:
  "is_chain w ns \<Longrightarrow> i < length ns \<Longrightarrow> follow w i (hd ns) = Some (ns ! i)"
proof (induction w ns arbitrary: i rule: is_chain.induct)
  case (1 w) then show ?case by simp
next
  case (2 w r) then show ?case by simp
next
  case (3 w r p rest)
  show ?case
  proof (cases i)
    case 0 then show ?thesis by simp
  next
    case (Suc j)
    with 3 show ?thesis by simp
  qed
qed

lemma is_chain_drop:
  "is_chain w ns \<Longrightarrow> i < length ns \<Longrightarrow> is_chain w (drop i ns)"
proof (induction w ns arbitrary: i rule: is_chain.induct)
  case (1 w) then show ?case by simp
next
  case (2 w r) then show ?case by simp
next
  case (3 w r p rest)
  show ?case
  proof (cases i)
    case 0 with 3 show ?thesis by simp
  next
    case (Suc j)
    with 3 show ?thesis by simp
  qed
qed

lemma is_chain_distinct:
  assumes "is_chain w ns"
  shows "distinct ns"
proof -
  have False if ij: "i < j" "j < length ns" "ns ! i = ns ! j" for i j
  proof -
    from ij have i: "i < length ns" by simp
    have cj: "is_chain w (drop j ns)" using assms ij(2) by (rule is_chain_drop)
    have ci: "is_chain w (drop i ns)" using assms i by (rule is_chain_drop)
    have hj: "hd (drop j ns) = ns ! j" using ij(2) by (simp add: hd_drop_conv_nth)
    have hi: "hd (drop i ns) = ns ! i" using i by (simp add: hd_drop_conv_nth)
    from is_chain_follow [OF cj] hj have "follow w (length ns - j) (ns ! j) = None" by simp
    moreover from is_chain_nth [OF ci, of "length ns - j"] hi ij
    have "follow w (length ns - j) (ns ! i) \<noteq> None" by simp
    ultimately show False using ij(3) by simp
  qed
  then have "ns ! i \<noteq> ns ! j" if "i < length ns" "j < length ns" "i \<noteq> j" for i j
    using that by (metis linorder_neqE_nat)
  then show ?thesis by (simp add: distinct_conv_nth)
qed

text \<open>
  Claim C2, as amended. \<open>cleanup_models\<close> calls \<open>cleanup()\<close> on a resource that has the
  capability once for every occurrence of the resource in the list of auxiliary resources
  and once more when it is referenced as a control value of the conditioning set, so at
  least once on every such control resource, and on no resource without the capability,
  which raises nothing. The calls depend on the conditioning set and the list only. When a
  control value is unhashable, \<open>set()\<close> raises \<open>TypeError\<close> after the first pass.
\<close>

theorem cleanup_models_calls:
  "(list_all hashable (referenced control conds) \<longrightarrow>
      fst (cleanup_models w conds ms []) = Inr ()
      \<and> (\<forall>r. count_list (snd (cleanup_models w conds ms [])) r =
             (if cleanup (objs w r)
              then count_list ms (Obj r) + (if Obj r \<in> set (referenced control conds) then 1 else 0)
              else 0)))
   \<and> (\<not> list_all hashable (referenced control conds) \<longrightarrow>
      fst (cleanup_models w conds ms []) = Inl TypeError
      \<and> (\<forall>r. count_list (snd (cleanup_models w conds ms [])) r =
             (if cleanup (objs w r) then count_list ms (Obj r) else 0)))"
proof (intro conjI impI)
  assume h: "list_all hashable (referenced control conds)"
  then obtain s where s: "py_set w (referenced control conds) = Inr s"
    by (simp add: py_set_def)
  from py_set_Inr [OF s] have "distinct s" "set s = set (referenced control conds)" by simp_all
  then have c: "count_list s x = (if x \<in> set (referenced control conds) then 1 else 0)" for x
    by (simp add: distinct_count_list)
  show "fst (cleanup_models w conds ms []) = Inr ()"
    by (simp add: cleanup_models_def control_cleanup_list_eq s Let_def)
  show "\<forall>r. count_list (snd (cleanup_models w conds ms [])) r =
             (if cleanup (objs w r)
              then count_list ms (Obj r) + (if Obj r \<in> set (referenced control conds) then 1 else 0)
              else 0)"
    by (simp add: cleanup_models_def control_cleanup_list_eq s Let_def
          cleanup_additional_models_count c)
next
  assume h: "\<not> list_all hashable (referenced control conds)"
  then have s: "py_set w (referenced control conds) = Inl TypeError"
    by (simp add: py_set_def)
  show "fst (cleanup_models w conds ms []) = Inl TypeError"
    by (simp add: cleanup_models_def control_cleanup_list_eq s Let_def)
  show "\<forall>r. count_list (snd (cleanup_models w conds ms [])) r =
             (if cleanup (objs w r) then count_list ms (Obj r) else 0)"
    by (simp add: cleanup_models_def control_cleanup_list_eq s Let_def
          cleanup_additional_models_count)
qed

lemmas cleanup_defs = cleanup_models_def control_cleanup_list_def get_models_from_cond_def
  cleanup_additional_models_def py_set_def

lemma ex_referenced_control: "referenced control ex_conds = [Obj 1, Obj 1]"
  by (simp add: referenced_def entry_values_def ex_defs)

theorem cleanup_models_calls_witness:
  "list_all hashable (referenced control ex_conds)
   \<and> fst (cleanup_models ex_world ex_conds [Obj 12, Obj 60] []) = Inr ()
   \<and> count_list (snd (cleanup_models ex_world ex_conds [Obj 12, Obj 60] [])) 1 = 1
   \<and> count_list (snd (cleanup_models ex_world ex_conds [Obj 12, Obj 60] [])) 12 = 1
   \<and> count_list (snd (cleanup_models ex_world ex_conds [Obj 12, Obj 60] [])) 60 = 0"
proof -
  have h: "list_all hashable (referenced control ex_conds)"
    by (simp add: ex_referenced_control)
  from cleanup_models_calls [of ex_conds ex_world "[Obj 12, Obj 60]"] h
  have a: "fst (cleanup_models ex_world ex_conds [Obj 12, Obj 60] []) = Inr ()"
    and b: "\<And>r. count_list (snd (cleanup_models ex_world ex_conds [Obj 12, Obj 60] [])) r =
             (if cleanup (objs ex_world r)
              then count_list [Obj 12, Obj 60] (Obj r)
                   + (if Obj r \<in> set (referenced control ex_conds) then 1 else 0)
              else 0)"
    by blast+
  show ?thesis
    using h a b [of 1] b [of 12] b [of 60]
    by (simp add: ex_referenced_control ex_world_def ex_objs_def)
qed

text \<open>
  The claim as stated fails: with the list that preparation returned for the scene, the
  attached model 9 occurs twice in the list and is cleaned up twice.
\<close>

theorem cleanup_invoked_twice:
  "cleanup_models ex_world ex_conds [Obj 12, Obj 11, Obj 20, Obj 20, Obj 9, Obj 9, Obj 60] []
     = (Inr (), [12, 11, 9, 9, 1])
   \<and> count_list [12, 11, 9, 9, 1 :: nat] 9 = 2"
  by (simp add: cleanup_defs ex_defs)

text \<open>
  Claim C6, as amended. On a chain of \<open>N\<close> nodes without cycle, where \<open>N\<close> is within the
  recursion depth that is available, the traversal visits exactly the \<open>N\<close> nodes, one
  after the other, and returns their groups of extra hooks. On a longer chain it raises
  \<open>RecursionError\<close>. On a chain that leads into a cycle it raises an exception whatever
  the depth: the function never returns there.
\<close>

theorem chain_traversal:
  "(is_chain w ns \<and> length ns \<le> depth \<longrightarrow>
      get_extra_hooks_from_cnet depth w (hd ns) ([], [])
        = Inr (concat (map (node_hooks w) ns), ns) \<and> distinct ns)
   \<and> (is_chain w ns \<and> depth < length ns \<longrightarrow>
      get_extra_hooks_from_cnet depth w (hd ns) ([], []) = Inl RecursionError)
   \<and> (follow w k r = Some x \<and> 0 < n \<and> follow w n x = Some x \<longrightarrow>
      (\<exists>e. get_extra_hooks_from_cnet depth w r ([], []) = Inl e))"
proof (intro conjI impI)
  assume "is_chain w ns \<and> length ns \<le> depth"
  then show "get_extra_hooks_from_cnet depth w (hd ns) ([], [])
        = Inr (concat (map (node_hooks w) ns), ns)"
    using get_extra_hooks_chain [of w ns depth "([], [])"] by simp
next
  assume "is_chain w ns \<and> length ns \<le> depth"
  then have "is_chain w ns" by simp
  then show "distinct ns" by (rule is_chain_distinct)
next
  assume "is_chain w ns \<and> depth < length ns"
  then show "get_extra_hooks_from_cnet depth w (hd ns) ([], []) = Inl RecursionError"
    by (simp add: get_extra_hooks_too_deep)
next
  assume a: "follow w k r = Some x \<and> 0 < n \<and> follow w n x = Some x"
  then have "follow w j r \<noteq> None" for j
    using cycle_never_ends [of w k r x n j] by simp
  then show "\<exists>e. get_extra_hooks_from_cnet depth w r ([], []) = Inl e"
    by (rule get_extra_hooks_never_ends)
qed

lemma ex_is_chain: "is_chain ex_world [1, 2]"
  by (simp add: ex_defs)

lemma ex_cycle_follow: "follow ex_cycle 0 1 = Some 1 \<and> follow ex_cycle 2 1 = Some 1"
  by (simp add: ex_cycle_def numeral_2_eq_2)

theorem chain_traversal_witness:
  "is_chain ex_world [1, 2]
   \<and> get_extra_hooks_from_cnet 10 ex_world 1 ([], [])
       = Inr ([[\<lparr>hook_ref = 31, hook_type = TransformerOptions, models = []\<rparr>],
               [\<lparr>hook_ref = 32, hook_type = Weight, models = []\<rparr>]], [1, 2])
   \<and> get_extra_hooks_from_cnet 1 ex_world 1 ([], []) = Inl RecursionError
   \<and> follow ex_cycle 0 1 = Some 1 \<and> follow ex_cycle 2 1 = Some 1
   \<and> (\<exists>e. get_extra_hooks_from_cnet 1000 ex_cycle 1 ([], []) = Inl e)"
proof -
  have a: "get_extra_hooks_from_cnet 10 ex_world 1 ([], [])
       = Inr ([[\<lparr>hook_ref = 31, hook_type = TransformerOptions, models = []\<rparr>],
               [\<lparr>hook_ref = 32, hook_type = Weight, models = []\<rparr>]], [1, 2])"
    using chain_traversal [of ex_world "[1, 2]" 10] ex_is_chain
    by (simp add: node_hooks_def ex_defs)
  have b: "get_extra_hooks_from_cnet 1 ex_world 1 ([], []) = Inl RecursionError"
    using chain_traversal [of ex_world "[1, 2]" 1] ex_is_chain by simp
  have c: "\<exists>e. get_extra_hooks_from_cnet 1000 ex_cycle 1 ([], []) = Inl e"
    using chain_traversal [of ex_cycle "[]" 1000 0 1 1 2] ex_cycle_follow by simp
  from ex_is_chain a b c ex_cycle_follow show ?thesis by simp
qed

lemma ex_long_chain_is_chain: "k \<le> 1000 \<Longrightarrow> is_chain ex_long_chain [1000 - k ..< 1001]"
proof (induction k)
  case 0
  have "[1000 ..< 1001] = [1000 :: nat]" by (simp add: upt_conv_Cons)
  then show ?case by (simp add: ex_long_chain_def)
next
  case (Suc k)
  define m where "m = 1000 - Suc k"
  from Suc.prems have sm: "Suc m = 1000 - k" and m: "m < 1000" by (simp_all add: m_def)
  have e: "[m ..< 1001] = m # [Suc m ..< 1001]"
    by (rule upt_conv_Cons) (use m in simp)
  have t: "[Suc m ..< 1001] = Suc m # [Suc (Suc m) ..< 1001]"
    by (rule upt_conv_Cons) (use m in simp)
  from Suc have ih: "is_chain ex_long_chain [Suc m ..< 1001]" by (simp add: sm)
  have p: "previous_controlnet (objs ex_long_chain m) = Present (Some (Suc m))"
    using m by (simp add: ex_long_chain_def)
  have x: "extra_hooks (objs ex_long_chain m) \<noteq> Absent"
    by (simp add: ex_long_chain_def)
  have "is_chain ex_long_chain (m # Suc m # [Suc (Suc m) ..< 1001])"
    using p x ih unfolding t by simp
  then show ?case unfolding m_def [symmetric] e t .
qed

text \<open>
  The claim as stated fails: a chain of 1001 nodes has no cycle, and with 1000 nested
  calls available the traversal raises \<open>RecursionError\<close>.
\<close>

theorem long_chain_recursion_error:
  "is_chain ex_long_chain [0 ..< 1001] \<and> length [0 ..< 1001 :: nat] = 1001
   \<and> get_extra_hooks_from_cnet 1000 ex_long_chain 0 ([], []) = Inl RecursionError"
proof -
  have c: "is_chain ex_long_chain [0 ..< 1001]"
    using ex_long_chain_is_chain [of 1000] by simp
  have "get_extra_hooks_from_cnet 1000 ex_long_chain (hd [0 ..< 1001]) ([], []) = Inl RecursionError"
    using c by (rule get_extra_hooks_too_deep) simp
  moreover have "hd [0 ..< 1001 :: nat] = 0" by (rule hd_upt) simp
  ultimately show ?thesis using c by simp
qed

text \<open>
  Claim C7, as amended. When the collection of hooks returns, the group holds every hook
  once and its hooks are those of the entries together with the extra hooks of the nodes
  visited. The visits are, branch after branch, the chains that start at the distinct
  control values of the branch: a node is visited once for every branch and every
  distinct control value of that branch whose chain it lies on.
\<close>

theorem collect_hooks_result:
  assumes "collect_hooks depth w conds ([], []) = Inr (result, visited)"
  shows "distinct result
       \<and> set result = (\<Union>kv\<in>set conds. set (branch_hooks (snd kv)))
                      \<union> (\<Union>r\<in>set visited. \<Union> (set ` set (node_hooks w r)))
       \<and> (\<exists>chss. list_all2 (\<lambda>kv chs. visits_of_branch w (snd kv) chs) conds chss
                \<and> visited = concat (map concat chss))"
  using collect_hooks_Inr [OF assms] by auto

lemmas hooks_defs = get_hooks_from_cond_def cond_hooks_loop_def combine_all_hooks_def add_def
  py_set_def ex_hook_conds_def ex_hook_entry_def ex_hook_def ex_world_def ex_objs_def Let_def

lemma ex_collect_hooks:
  "collect_hooks 10 ex_world ex_hook_conds ([], [])
     = Inr ([ex_hook 21, \<lparr>hook_ref = 31, hook_type = TransformerOptions, models = []\<rparr>,
             \<lparr>hook_ref = 32, hook_type = Weight, models = []\<rparr>, ex_hook 22], [1, 2, 2])"
  by (simp add: hooks_defs eval_nat_numeral)

theorem collect_hooks_result_witness:
  "collect_hooks 10 ex_world ex_hook_conds ([], [])
     = Inr ([ex_hook 21, \<lparr>hook_ref = 31, hook_type = TransformerOptions, models = []\<rparr>,
             \<lparr>hook_ref = 32, hook_type = Weight, models = []\<rparr>, ex_hook 22], [1, 2, 2])
   \<and> distinct [ex_hook 21, \<lparr>hook_ref = 31, hook_type = TransformerOptions, models = []\<rparr>,
             \<lparr>hook_ref = 32, hook_type = Weight, models = []\<rparr>, ex_hook 22]
   \<and> set [ex_hook 21, \<lparr>hook_ref = 31, hook_type = TransformerOptions, models = []\<rparr>,
             \<lparr>hook_ref = 32, hook_type = Weight, models = []\<rparr>, ex_hook 22]
       = (\<Union>kv\<in>set ex_hook_conds. set (branch_hooks (snd kv)))
         \<union> (\<Union>r\<in>set [1, 2, 2]. \<Union> (set ` set (node_hooks ex_world r)))"
  using collect_hooks_result [OF ex_collect_hooks] ex_collect_hooks by blast

text \<open>
  The claim as stated fails in the scenario of the spec: node 2 is the tail of the chain of
  the positive branch and the control value of the negative branch, and it is visited
  twice.
\<close>

theorem shared_node_visited_twice:
  "collect_hooks 10 ex_world ex_hook_conds ([], [])
     = Inr ([ex_hook 21, \<lparr>hook_ref = 31, hook_type = TransformerOptions, models = []\<rparr>,
             \<lparr>hook_ref = 32, hook_type = Weight, models = []\<rparr>, ex_hook 22], [1, 2, 2])
   \<and> count_list [1, 2, 2 :: nat] 2 = 2"
  by (simp add: hooks_defs eval_nat_numeral)

subsection \<open>Registering the hooks\<close>

lemma items_labels_simps [simp]:
  "items_labels [] = {}"
  "items_labels (kv # kvs) = labels (snd kv) \<union> items_labels kvs"
  "items_labels (kvs @ kvs') = items_labels kvs \<union> items_labels kvs'"
  by (auto simp: items_labels_def)

lemma labels_Dct: "labels (Dct a kvs) = insert a (items_labels kvs)"
  by (simp add: items_labels_def)

lemma items_labels_update:
  "items_labels (AList.update k v kvs) \<subseteq> labels v \<union> items_labels kvs"
  by (induction kvs) (auto simp: items_labels_def)

lemma items_labels_map_of:
  "map_of kvs k = Some e \<Longrightarrow> labels e \<subseteq> items_labels kvs"
  by (induction kvs) (auto simp: items_labels_def split: if_splits)

lemma labels_step:
  fixes n m' m :: nat
  assumes "Y \<subseteq> A \<union> V \<union> {m'..<m}" and "V \<subseteq> A \<union> {n..<m'}" and "n \<le> m'" and "m' \<le> m"
  shows "Y \<subseteq> A \<union> {n..<m}"
proof
  fix x assume "x \<in> Y"
  with assms(1) consider "x \<in> A" | "x \<in> V" | "m' \<le> x \<and> x < m" by auto
  then show "x \<in> A \<union> {n..<m}"
  proof cases
    case 1 then show ?thesis by simp
  next
    case 2
    with assms(2) have "x \<in> A \<or> (n \<le> x \<and> x < m')" by auto
    with assms(4) show ?thesis by auto
  next
    case 3
    with assms(3) show ?thesis by auto
  qed
qed

lemma copy_nested_dicts_labels:
  "copy_nested_dicts n t = (t', n') \<Longrightarrow> n \<le> n' \<and> labels t' \<subseteq> {n..<n'}"
proof (induction n t arbitrary: t' n' rule: copy_nested_dicts.induct)
  case (1 n f)
  then show ?case by auto
next
  case (2 n a xs)
  then show ?case by auto
next
  case (3 n a kvs)
  let ?f = "\<lambda>kv acc. case copy_nested_dicts (snd acc) (snd kv) of
                              (v', m') \<Rightarrow> (fst acc @ [(fst kv, v')], m')"
  have step: "fold ?f xs acc = (ys, m) \<Longrightarrow> set xs \<subseteq> set kvs \<Longrightarrow>
                snd acc \<le> m \<and> items_labels ys \<subseteq> items_labels (fst acc) \<union> {snd acc..<m}"
    for xs acc ys m
  proof (induction xs arbitrary: acc)
    case Nil
    then show ?case by auto
  next
    case (Cons kv xs)
    obtain v' m' where c: "copy_nested_dicts (snd acc) (snd kv) = (v', m')"
      by (cases "copy_nested_dicts (snd acc) (snd kv)")
    from Cons.prems(2) have kv: "kv \<in> set kvs" by simp
    from "3.IH" [OF kv c] have l: "snd acc \<le> m'" "labels v' \<subseteq> {snd acc..<m'}" by simp_all
    from Cons.prems c have f: "fold ?f xs (fst acc @ [(fst kv, v')], m') = (ys, m)" by simp
    from Cons.IH [OF f] Cons.prems(2)
    have "m' \<le> m" "items_labels ys \<subseteq> items_labels (fst acc @ [(fst kv, v')]) \<union> {m'..<m}"
      by simp_all
    then have mm: "m' \<le> m"
      and y: "items_labels ys \<subseteq> items_labels (fst acc) \<union> labels v' \<union> {m'..<m}" by simp_all
    from l have v: "labels v' \<subseteq> items_labels (fst acc) \<union> {snd acc..<m'}" by auto
    from l(1) mm have "snd acc \<le> m" by simp
    with labels_step [OF y v l(1) mm] show ?case by simp
  qed
  obtain kvs' m where f: "fold ?f kvs ([], Suc n) = (kvs', m)"
    by (cases "fold ?f kvs ([], Suc n)")
  from step [OF f] have a: "Suc n \<le> m" "items_labels kvs' \<subseteq> {Suc n..<m}" by simp_all
  from "3.prems" f have b: "t' = Dct n kvs'" "n' = m" by simp_all
  from a have "insert n (items_labels kvs') \<subseteq> {n..<m}" by auto
  with a(1) show ?case unfolding b labels_Dct by simp
qed

lemma merge_nested_dicts_labels:
  "merge_nested_dicts n e v = (e', n') \<Longrightarrow> n \<le> n' \<and> labels e' \<subseteq> labels e \<union> {n..<n'}"
proof (induction n e v arbitrary: e' n' rule: merge_nested_dicts.induct)
  case (1 n a kvs b kvs')
  let ?f = "\<lambda>kv acc.
                   case map_of (fst acc) (fst kv) of
                     None \<Rightarrow> (case copy_nested_dicts (snd acc) (snd kv) of
                                (v', m') \<Rightarrow> (fst acc @ [(fst kv, v')], m'))
                   | Some e \<Rightarrow> (case merge_nested_dicts (snd acc) e (snd kv) of
                                  (e', m') \<Rightarrow> (AList.update (fst kv) e' (fst acc), m'))"
  have step: "fold ?f xs acc = (ys, m) \<Longrightarrow> set xs \<subseteq> set kvs' \<Longrightarrow>
                snd acc \<le> m \<and> items_labels ys \<subseteq> items_labels (fst acc) \<union> {snd acc..<m}"
    for xs acc ys m
  proof (induction xs arbitrary: acc)
    case Nil
    then show ?case by auto
  next
    case (Cons kv xs)
    from Cons.prems(2) have kv: "kv \<in> set kvs'" by simp
    show ?case
    proof (cases "map_of (fst acc) (fst kv)")
      case None
      obtain v' m' where c: "copy_nested_dicts (snd acc) (snd kv) = (v', m')"
        by (cases "copy_nested_dicts (snd acc) (snd kv)")
      from copy_nested_dicts_labels [OF c] have l: "snd acc \<le> m'" "labels v' \<subseteq> {snd acc..<m'}"
        by simp_all
      from Cons.prems None c have f: "fold ?f xs (fst acc @ [(fst kv, v')], m') = (ys, m)" by simp
      from Cons.IH [OF f] Cons.prems(2)
      have "m' \<le> m" "items_labels ys \<subseteq> items_labels (fst acc @ [(fst kv, v')]) \<union> {m'..<m}"
        by simp_all
      then have mm: "m' \<le> m"
        and y: "items_labels ys \<subseteq> items_labels (fst acc) \<union> labels v' \<union> {m'..<m}" by simp_all
      from l have v: "labels v' \<subseteq> items_labels (fst acc) \<union> {snd acc..<m'}" by auto
      from l(1) mm have "snd acc \<le> m" by simp
      with labels_step [OF y v l(1) mm] show ?thesis by simp
    next
      case (Some e)
      obtain e1 m' where c: "merge_nested_dicts (snd acc) e (snd kv) = (e1, m')"
        by (cases "merge_nested_dicts (snd acc) e (snd kv)")
      from "1.IH" [OF kv Some c] have l: "snd acc \<le> m'" "labels e1 \<subseteq> labels e \<union> {snd acc..<m'}"
        by simp_all
      from Cons.prems Some c have f: "fold ?f xs (AList.update (fst kv) e1 (fst acc), m') = (ys, m)"
        by simp
      from Cons.IH [OF f] Cons.prems(2)
      have "m' \<le> m" "items_labels ys \<subseteq> items_labels (AList.update (fst kv) e1 (fst acc)) \<union> {m'..<m}"
        by simp_all
      then have mm: "m' \<le> m"
        and y: "items_labels ys \<subseteq> items_labels (fst acc) \<union> labels e1 \<union> {m'..<m}"
        using items_labels_update [of "fst kv" e1 "fst acc"] by auto
      from l items_labels_map_of [OF Some]
      have v: "labels e1 \<subseteq> items_labels (fst acc) \<union> {snd acc..<m'}" by auto
      from l(1) mm have "snd acc \<le> m" by simp
      with labels_step [OF y v l(1) mm] show ?thesis by simp
    qed
  qed
  obtain merged m where f: "fold ?f kvs' (kvs, n) = (merged, m)"
    by (cases "fold ?f kvs' (kvs, n)")
  from step [OF f] have a: "n \<le> m" "items_labels merged \<subseteq> items_labels kvs \<union> {n..<m}" by simp_all
  from "1.prems" f have b: "e' = Dct a merged" "n' = m" by simp_all
  from a have "insert a (items_labels merged) \<subseteq> insert a (items_labels kvs) \<union> {n..<m}" by auto
  with a(1) show ?case unfolding b labels_Dct by simp
qed auto

lemma lookup_node_None: "a \<notin> labels t \<Longrightarrow> lookup_node a t = None"
proof (induction t)
  case (Fn f) show ?case by simp
next
  case (Lst b xs) then show ?case by simp
next
  case (Dct b kvs)
  have "fold (\<lambda>kv acc. case acc of Some n \<Rightarrow> Some n | None \<Rightarrow> lookup_node a (snd kv)) xs None = None"
    if "set xs \<subseteq> set kvs" for xs
    using that
  proof (induction xs)
    case Nil show ?case by simp
  next
    case (Cons kv xs)
    then have "kv \<in> set kvs" by simp
    moreover from this Dct.prems have "a \<notin> labels (snd kv)" by auto
    ultimately have "lookup_node a (snd kv) = None"
      using Dct.IH [of kv "snd kv"] by (simp add: snds.intros)
    with Cons show ?case by simp
  qed
  with Dct.prems show ?case by simp
qed

lemma sync_disjoint: "labels src \<inter> labels t = {} \<Longrightarrow> sync src t = t"
proof (induction t)
  case (Fn f) show ?case by simp
next
  case (Lst a xs)
  then have "lookup_node a src = None" by (simp add: lookup_node_None)
  then show ?case by simp
next
  case (Dct a kvs)
  then have n: "lookup_node a src = None" by (simp add: lookup_node_None)
  have "map (\<lambda>kv. (fst kv, sync src (snd kv))) kvs = kvs"
  proof (rule map_idI)
    fix kv assume kv: "kv \<in> set kvs"
    with Dct.prems have "labels src \<inter> labels (snd kv) = {}" by auto
    with kv Dct.IH [of kv "snd kv"] have "sync src (snd kv) = snd kv"
      by (simp add: snds.intros)
    then show "(fst kv, sync src (snd kv)) = kv" by simp
  qed
  with n show ?case by simp
qed

lemma lookup_node_labels: "lookup_node a t = Some n \<Longrightarrow> labels n \<subseteq> labels t"
proof (induction t)
  case (Fn f) then show ?case by simp
next
  case (Lst b xs) then show ?case by (auto split: if_splits)
next
  case (Dct b kvs)
  show ?case
  proof (cases "a = b")
    case True with Dct.prems show ?thesis by auto
  next
    case False
    have "fold (\<lambda>kv acc. case acc of Some n \<Rightarrow> Some n | None \<Rightarrow> lookup_node a (snd kv)) xs acc = Some n
            \<Longrightarrow> set xs \<subseteq> set kvs \<Longrightarrow> (acc = Some n \<or> labels n \<subseteq> items_labels kvs) " for xs acc
    proof (induction xs arbitrary: acc)
      case Nil then show ?case by simp
    next
      case (Cons kv xs)
      then have kv: "kv \<in> set kvs" by simp
      show ?case
      proof (cases acc)
        case (Some m)
        with Cons show ?thesis by auto
      next
        case None
        with Cons.prems have f: "fold (\<lambda>kv acc. case acc of Some n \<Rightarrow> Some n | None \<Rightarrow> lookup_node a (snd kv)) xs (lookup_node a (snd kv)) = Some n"
          by simp
        from Cons.IH [OF f] Cons.prems(2)
        have "lookup_node a (snd kv) = Some n \<or> labels n \<subseteq> items_labels kvs" by simp
        moreover have "labels n \<subseteq> labels (snd kv)" if "lookup_node a (snd kv) = Some n"
          using Dct.IH [of kv "snd kv"] kv that by (simp add: snds.intros)
        moreover have "labels (snd kv) \<subseteq> items_labels kvs" using kv by (auto simp: items_labels_def)
        ultimately show ?thesis by auto
      qed
    qed
    from this [of kvs None] Dct.prems False have "labels n \<subseteq> items_labels kvs" by simp
    then show ?thesis unfolding labels_Dct by auto
  qed
qed

lemma sync_labels: "labels (sync src t) \<subseteq> labels t \<union> labels src"
proof (induction t)
  case (Fn f) show ?case by simp
next
  case (Lst a xs)
  show ?case by (auto split: option.splits dest: lookup_node_labels)
next
  case (Dct a kvs)
  show ?case
  proof (cases "lookup_node a src")
    case None
    have "labels (sync src (snd kv)) \<subseteq> labels (snd kv) \<union> labels src" if "kv \<in> set kvs" for kv
      using Dct.IH [of kv "snd kv"] that by (simp add: snds.intros)
    then have "items_labels (map (\<lambda>kv. (fst kv, sync src (snd kv))) kvs) \<subseteq> items_labels kvs \<union> labels src"
      by (auto simp: items_labels_def)
    with None show ?thesis by (auto simp: labels_Dct simp del: labels.simps(3))
  next
    case (Some n)
    with lookup_node_labels [OF Some] show ?thesis by auto
  qed
qed

lemma write_back_model:
  assumes "labels t \<inter> model_labels s = {}"
  shows "model_wrappers (write_back t s) = model_wrappers s"
    and "model_callbacks (write_back t s) = model_callbacks s"
proof -
  from assms have "labels t \<inter> labels (model_wrappers s) = {}"
    and "labels t \<inter> labels (model_callbacks s) = {}"
    by (auto simp: model_labels_def)
  then show "model_wrappers (write_back t s) = model_wrappers s"
    and "model_callbacks (write_back t s) = model_callbacks s"
    by (simp_all add: write_back_def sync_disjoint)
qed

lemma opt_labels_sync: "opt_labels (map_option (sync t) r) \<subseteq> opt_labels r \<union> labels t"
  using sync_labels by (cases r) (auto simp: opt_labels_def)

lemma write_back_separate:
  assumes "separate s" and "labels t \<inter> model_labels s = {}" and "next_addr s \<le> n'"
  shows "separate (write_back t (s\<lparr>next_addr := n'\<rparr>))"
    and "model_wrappers (write_back t (s\<lparr>next_addr := n'\<rparr>)) = model_wrappers s"
    and "model_callbacks (write_back t (s\<lparr>next_addr := n'\<rparr>)) = model_callbacks s"
proof -
  let ?s = "s\<lparr>next_addr := n'\<rparr>"
  have m: "model_labels ?s = model_labels s" by (simp add: model_labels_def)
  with assms(2) have d: "labels t \<inter> model_labels ?s = {}" by simp
  from write_back_model [OF d] show
    w: "model_wrappers (write_back t ?s) = model_wrappers s" and
    c: "model_callbacks (write_back t ?s) = model_callbacks s" by simp_all
  from w c have ml: "model_labels (write_back t ?s) = model_labels s" by (simp add: model_labels_def)
  have "options_labels (write_back t ?s) \<subseteq> options_labels s \<union> labels t"
    using opt_labels_sync [of t "opt_transformer_options s"] opt_labels_sync [of t "opt_to_load_options s"]
    by (auto simp: options_labels_def write_back_def)
  with assms(1,2) have "model_labels s \<inter> options_labels (write_back t ?s) = {}"
    by (auto simp: separate_def)
  moreover have "next_addr (write_back t ?s) = n'" by (simp add: write_back_def)
  ultimately show "separate (write_back t ?s)"
    using assms(1,3) ml by (auto simp: separate_def)
qed

lemma fresh_disjoint:
  assumes "separate s" and "X \<subseteq> options_labels s \<union> {k..<n'}" and "next_addr s \<le> k"
  shows "X \<inter> model_labels s = {}"
proof -
  have "a \<notin> model_labels s" if "a \<in> X" for a
  proof
    assume m: "a \<in> model_labels s"
    with assms(1) have "a \<notin> options_labels s" and "a < next_addr s" by (auto simp: separate_def)
    with assms(2,3) that show False by auto
  qed
  then show ?thesis by auto
qed

lemma unchanged_refl: "separate s \<Longrightarrow> unchanged s s"
  by (simp add: unchanged_def)

lemma unchanged_model_labels: "unchanged s s' \<Longrightarrow> model_labels s' = model_labels s"
  by (simp add: unchanged_def model_labels_def)

lemma write_back_unchanged:
  assumes "unchanged s0 s" and "X \<subseteq> options_labels s \<union> {k..<n'}" and "labels t \<subseteq> X"
    and "next_addr s \<le> k" and "next_addr s \<le> n'"
  shows "unchanged s0 (write_back t (s\<lparr>next_addr := n'\<rparr>))"
proof -
  from assms(1) have sep: "separate s" by (simp add: unchanged_def)
  from fresh_disjoint [OF sep assms(2,4)] assms(3) have d: "labels t \<inter> model_labels s = {}" by auto
  from write_back_separate [OF sep d assms(5)] assms(1) show ?thesis
    by (simp add: unchanged_def)
qed

lemma copy_registration_unchanged:
  assumes "unchanged s0 s" and "copy_registration name source s = Inr s'"
  shows "unchanged s0 s'"
proof -
  obtain c n' where c: "copy_nested_dicts (next_addr s) (source s) = (c, n')"
    by (cases "copy_nested_dicts (next_addr s) (source s)")
  from assms(2) c obtain a kvs where t: "opt_transformer_options s = Some (Dct a kvs)"
    and s': "s' = write_back (Dct a (AList.update name c kvs)) (s\<lparr>next_addr := n'\<rparr>)"
    by (auto simp: copy_registration_def split: option.splits nested.splits)
  from copy_nested_dicts_labels [OF c] have l: "next_addr s \<le> n'" "labels c \<subseteq> {next_addr s..<n'}"
    by simp_all
  from t have "insert a (items_labels kvs) \<subseteq> options_labels s"
    by (auto simp: options_labels_def opt_labels_def items_labels_def)
  with l(2) items_labels_update [of name c kvs]
  have "labels (Dct a (AList.update name c kvs)) \<subseteq> options_labels s \<union> {next_addr s..<n'}"
    unfolding labels_Dct by auto
  from write_back_unchanged [OF assms(1) this subset_refl le_refl l(1)] s' show ?thesis by simp
qed

lemma add_hook_patches_unchanged:
  assumes "unchanged s0 (fst sr)"
  shows "unchanged s0 (fst (add_hook_patches td h sr))"
proof -
  obtain s registered where sr: "sr = (s, registered)" by (cases sr)
  show ?thesis
  proof (cases "hook_type h = TransformerOptions")
    case False
    with assms sr show ?thesis by (simp add: add_hook_patches_def)
  next
    case True
    show ?thesis
    proof (cases "opt_transformer_options s")
      case None
      with assms sr True show ?thesis by (simp add: add_hook_patches_def)
    next
      case (Some t)
      obtain t' n' where m: "merge_nested_dicts (next_addr s) t (td h) = (t', n')"
        by (cases "merge_nested_dicts (next_addr s) t (td h)")
      from merge_nested_dicts_labels [OF m]
      have l: "next_addr s \<le> n'" "labels t' \<subseteq> labels t \<union> {next_addr s..<n'}" by simp_all
      from Some have "labels t \<subseteq> options_labels s" by (simp add: options_labels_def opt_labels_def)
      with l(2) have "labels t' \<subseteq> options_labels s \<union> {next_addr s..<n'}" by auto
      from write_back_unchanged [OF _ this subset_refl le_refl l(1)] assms sr
      have "unchanged s0 (write_back t' (s\<lparr>next_addr := n'\<rparr>))" by simp
      with sr True Some m show ?thesis by (simp add: add_hook_patches_def)
    qed
  qed
qed

lemma fold_add_hook_patches_unchanged:
  "unchanged s0 (fst sr) \<Longrightarrow> unchanged s0 (fst (fold (add_hook_patches td) hs sr))"
  by (induction hs arbitrary: sr) (simp_all add: add_hook_patches_unchanged)

lemma sync_top: "sync (Dct a kvs') (Dct a kvs) = Dct a kvs'"
  by simp

lemma merge_into_to_load_unchanged:
  assumes "unchanged s0 s" and "merge_into_to_load wc_name s = Inr s'"
  shows "unchanged s0 s'"
proof -
  from assms(2) obtain a kvs where tl: "opt_to_load_options s = Some (Dct a kvs)"
    by (auto simp: merge_into_to_load_def split: option.splits nested.splits)
  then have tll: "insert a (items_labels kvs) \<subseteq> options_labels s"
    by (auto simp: options_labels_def opt_labels_def items_labels_def)
  define n where "n = next_addr s"
  define ts1 where "ts1 = (case map_of kvs wc_name of
                        Some e \<Rightarrow> (e, s)
                      | None \<Rightarrow>
                          (Dct n [],
                           write_back (Dct a (kvs @ [(wc_name, Dct n [])]))
                             (s\<lparr>next_addr := Suc n\<rparr>)))"
  obtain target s1 where ts: "ts1 = (target, s1)" by (cases ts1)
  have u1: "unchanged s0 s1" and n1: "n \<le> next_addr s1"
    and tg: "labels target \<subseteq> options_labels s1"
  proof -
    show "unchanged s0 s1 " 
    proof (cases "map_of kvs wc_name")
      case None
      with ts have s1: "s1 = write_back (Dct a (kvs @ [(wc_name, Dct n [])])) (s\<lparr>next_addr := Suc n\<rparr>)"
        by (auto simp: ts1_def)
      have lab: "labels (Dct a (kvs @ [(wc_name, Dct n [])])) \<subseteq> options_labels s \<union> {n..<Suc n}"
        using tll unfolding labels_Dct by auto
      have "next_addr s \<le> n" "next_addr s \<le> Suc n" by (simp_all add: n_def)
      from write_back_unchanged [OF assms(1) lab subset_refl this] show ?thesis
        unfolding s1 .
    next
      case (Some e)
      with ts assms(1) show ?thesis by (simp add: ts1_def)
    qed
    show "n \<le> next_addr s1"
      using ts by (auto simp: ts1_def n_def write_back_def split: option.splits)
    show "labels target \<subseteq> options_labels s1"
    proof (cases "map_of kvs wc_name")
      case None
      with ts have t: "target = Dct n []"
        and s1: "s1 = write_back (Dct a (kvs @ [(wc_name, Dct n [])])) (s\<lparr>next_addr := Suc n\<rparr>)"
        by (auto simp: ts1_def)
      from tl have "opt_to_load_options s1 = Some (Dct a (kvs @ [(wc_name, Dct n [])]))"
        unfolding s1 by (simp add: write_back_def)
      then show ?thesis by (simp add: t options_labels_def opt_labels_def)
    next
      case (Some e)
      with ts have "target = e" "s1 = s" by (simp_all add: ts1_def)
      with items_labels_map_of [OF Some] tll show ?thesis by auto
    qed
  qed
  from assms(2) tl ts obtain b tkvs incoming target' n' where
    m: "merge_nested_dicts (next_addr s1) target incoming = (target', n')" and
    s': "s' = write_back target' (s1\<lparr>next_addr := n'\<rparr>)"
    by (auto simp: merge_into_to_load_def ts1_def n_def split: option.splits nested.splits prod.splits)
  from merge_nested_dicts_labels [OF m]
  have l: "next_addr s1 \<le> n'" "labels target' \<subseteq> labels target \<union> {next_addr s1..<n'}" by simp_all
  with tg have "labels target' \<subseteq> options_labels s1 \<union> {next_addr s1..<n'}" by auto
  from write_back_unchanged [OF u1 this subset_refl le_refl l(1)] s' show ?thesis by simp
qed

lemma setdefault_to_load_unchanged:
  assumes "unchanged s0 s"
  shows "unchanged s0 (case opt_to_load_options s of
                         None \<Rightarrow> s\<lparr>opt_to_load_options := Some (Dct (next_addr s) []),
                                      next_addr := Suc (next_addr s)\<rparr>
                       | Some tlo \<Rightarrow> s)"
proof (cases "opt_to_load_options s")
  case None
  from assms have sep: "separate s" by (simp add: unchanged_def)
  let ?s = "s\<lparr>opt_to_load_options := Some (Dct (next_addr s) []), next_addr := Suc (next_addr s)\<rparr>"
  have ml: "model_labels ?s = model_labels s" by (simp add: model_labels_def)
  have ol: "options_labels ?s = options_labels s \<union> {next_addr s}"
    using None by (auto simp: options_labels_def opt_labels_def)
  from sep have "separate ?s" unfolding separate_def ml ol by auto
  with assms None show ?thesis by (simp add: unchanged_def)
next
  case (Some t)
  with assms show ?thesis by simp
qed

lemma registered_unchanged:
  "unchanged s0 s \<Longrightarrow> unchanged s0 (s\<lparr>opt_registered_hooks := r\<rparr>)"
  by (auto simp: unchanged_def separate_def model_labels_def options_labels_def)

lemma register_hooks_unchanged:
  "unchanged s0 s \<Longrightarrow> unchanged s0 (fst (register_hooks td hks s))"
  unfolding register_hooks_def by (rule fold_add_hook_patches_unchanged) simp

lemma merge_to_load_options_unchanged:
  assumes "unchanged s0 s"
  shows "unchanged s0 (snd (merge_to_load_options s))"
proof -
  define s5 where "s5 = (case opt_to_load_options s of
                  None \<Rightarrow> s\<lparr>opt_to_load_options := Some (Dct (next_addr s) []),
                              next_addr := Suc (next_addr s)\<rparr>
                | Some tlo \<Rightarrow> s)"
  have u5: "unchanged s0 s5" unfolding s5_def using assms by (rule setdefault_to_load_unchanged)
  have r: "merge_to_load_options s =
             (case merge_into_to_load ''wrappers'' s5 of
                Inl e \<Rightarrow> (Inl e, s5)
              | Inr s6 \<Rightarrow>
                  (case merge_into_to_load ''callbacks'' s6 of
                     Inl e \<Rightarrow> (Inl e, s6)
                   | Inr s7 \<Rightarrow>
                       (case opt_to_load_options s7 of
                          None \<Rightarrow> (Inl KeyError, s7)
                        | Some tlo \<Rightarrow> (Inr tlo, s7))))"
    unfolding merge_to_load_options_def Let_def s5_def ..
  show ?thesis
  proof (cases "merge_into_to_load ''wrappers'' s5")
    case (Inl e)
    with r u5 show ?thesis by simp
  next
    case s6: (Inr s6)
    have u6: "unchanged s0 s6" using merge_into_to_load_unchanged [OF u5 s6] .
    show ?thesis
    proof (cases "merge_into_to_load ''callbacks'' s6")
      case (Inl e)
      with r s6 u6 show ?thesis by simp
    next
      case s7: (Inr s7)
      have u7: "unchanged s0 s7" using merge_into_to_load_unchanged [OF u6 s7] .
      with r s6 s7 show ?thesis by (simp split: option.splits)
    qed
  qed
qed

text \<open>
  Claim C9. When the options hold no reference to the registration objects of the primary
  resource, \<open>prepare_model_patcher\<close> leaves \<open>wrappers\<close> and \<open>callbacks\<close> of the primary
  resource as they were, whatever hooks the conditioning set holds and whatever they
  contribute, also when the call raises: the working area receives copies, and every
  later update in place reaches only objects of the options or new objects.
\<close>

theorem prepare_model_patcher_keeps_registrations:
  assumes "separate s"
  shows "model_wrappers (snd (prepare_model_patcher depth w td conds s)) = model_wrappers s
       \<and> model_callbacks (snd (prepare_model_patcher depth w td conds s)) = model_callbacks s"
proof -
  have "unchanged s (snd (prepare_model_patcher depth w td conds s))"
  proof (cases "collect_hooks depth w conds ([], [])")
    case (Inl e)
    with assms show ?thesis by (simp add: prepare_model_patcher_def unchanged_refl)
  next
    case (Inr hv)
    obtain hks visited where hv: "hv = (hks, visited)" by (cases hv)
    show ?thesis
    proof (cases "copy_registration ''wrappers'' model_wrappers s")
      case (Inl e)
      with Inr hv assms show ?thesis by (simp add: prepare_model_patcher_def unchanged_refl)
    next
      case s1: (Inr s1)
      have u1: "unchanged s s1"
        using copy_registration_unchanged [OF unchanged_refl [OF assms] s1] .
      show ?thesis
      proof (cases "copy_registration ''callbacks'' model_callbacks s1")
        case (Inl e)
        with Inr hv s1 u1 show ?thesis by (simp add: prepare_model_patcher_def)
      next
        case s2: (Inr s2)
        have u2: "unchanged s s2" using copy_registration_unchanged [OF u1 s2] .
        obtain s3 registered where f: "register_hooks td hks s2 = (s3, registered)"
          by (cases "register_hooks td hks s2")
        from register_hooks_unchanged [OF u2, of td hks] f have u3: "unchanged s s3" by simp
        then have u4: "unchanged s (if length registered > 0
                            then s3\<lparr>opt_registered_hooks := Some registered\<rparr> else s3)"
          by (simp add: registered_unchanged)
        from merge_to_load_options_unchanged [OF u4] Inr hv s1 s2 f show ?thesis
          by (simp add: prepare_model_patcher_def)
      qed
    qed
  qed
  then show ?thesis by (simp add: unchanged_def)
qed

lemmas patcher_defs = prepare_model_patcher_def register_hooks_def merge_to_load_options_def
  merge_into_to_load_def add_hook_patches_def copy_registration_def write_back_def
  get_type_def add_def ex_state_def ex_transformers_dict_def Let_def

lemma ex_separate: "separate ex_state"
  by (simp add: separate_def model_labels_def options_labels_def opt_labels_def ex_state_def)

theorem prepare_model_patcher_keeps_registrations_witness:
  "separate ex_state
   \<and> model_wrappers (snd (prepare_model_patcher 10 ex_world ex_transformers_dict ex_hook_conds ex_state))
       = Dct 1 [(''sampler'', Dct 2 [(''k'', Lst 3 [70])])]
   \<and> model_callbacks (snd (prepare_model_patcher 10 ex_world ex_transformers_dict ex_hook_conds ex_state))
       = Dct 4 []"
  using prepare_model_patcher_keeps_registrations
          [OF ex_separate, of 10 ex_world ex_transformers_dict ex_hook_conds] ex_separate
  by (simp add: ex_state_def)

text \<open>
  In the scene the merged configuration holds the wrapper of the primary resource followed
  by those of the three hooks. Without the separation the last merge reaches the primary
  resource: with options whose \<open>to_load_options\<close> refers to its \<open>wrappers\<close> object, the
  object is extended in place.
\<close>

lemma ex_prepare_model_patcher:
  "fst (prepare_model_patcher 10 ex_world ex_transformers_dict ex_hook_conds ex_state)
     = Inr (Dct 14 [(''wrappers'', Dct 15 [(''sampler'', Dct 16 [(''k'', Lst 17 [70, 21, 31, 22])])]),
                    (''callbacks'', Dct 18 [])])"
  by (simp add: patcher_defs ex_collect_hooks ex_hook_def)

lemma ex_aliased_options:
  "\<not> separate ex_aliased_state
   \<and> model_wrappers (snd (prepare_model_patcher 10 ex_world ex_transformers_dict ex_hook_conds
                             ex_aliased_state))
       = Dct 1 [(''sampler'', Dct 2 [(''k'', Lst 3 [70, 70, 21, 31, 22])])]"
  by (simp add: patcher_defs ex_collect_hooks ex_hook_def ex_aliased_state_def
        separate_def model_labels_def options_labels_def opt_labels_def)

end
